theory Spec2Isabelle
  imports Complex_Main "HOL-Library.Word"
begin

unbundle bit_operations_syntax

section \<open>JavaScript numbers\<close>

text \<open>
  A JavaScript Number is an IEEE 754 double. It is modelled by its mathematical value:
  \<open>Fin r\<close> is the finite number of value \<open>r\<close> (with \<open>Fin 0\<close> the positive zero),
  \<open>NegZero\<close> is \<open>-0\<close>, and the two infinities and NaN are values of their own.
\<close>

datatype jsnum = Fin real | NegZero | PosInf | NegInf | NaN


definition is_neg :: "jsnum \<Rightarrow> bool" where
  "is_neg x = (case x of Fin r \<Rightarrow> r < 0 | NegZero \<Rightarrow> True | NegInf \<Rightarrow> True | _ \<Rightarrow> False)"

definition is_zero :: "jsnum \<Rightarrow> bool" where
  "is_zero x = (case x of Fin r \<Rightarrow> r = 0 | NegZero \<Rightarrow> True | _ \<Rightarrow> False)"

definition is_inf :: "jsnum \<Rightarrow> bool" where
  "is_inf x = (x = PosInf \<or> x = NegInf)"

definition val :: "jsnum \<Rightarrow> real" where
  "val x = (case x of Fin r \<Rightarrow> r | _ \<Rightarrow> 0)"

abbreviation num :: "nat \<Rightarrow> jsnum" where
  "num n \<equiv> Fin (real n)"

subsection \<open>Rounding\<close>

text \<open>
  \<open>rne\<close> rounds a real to the nearest integer, a tie to the even one. \<open>fl_gen p emin\<close>
  rounds a real to the nearest binary floating-point number of precision \<open>p\<close> whose
  least normal exponent is \<open>emin\<close> (below it the spacing stays that of the subnormals),
  a tie to the even significand; \<open>fl\<close> is the rounding of doubles, \<open>fl32\<close> that of the
  single-precision numbers a \<open>Float32Array\<close> stores.
\<close>

definition rne :: "real \<Rightarrow> int" where
  "rne y = (let f = \<lfloor>y\<rfloor>; d = y - of_int f
            in if d < 1 / 2 then f else if d > 1 / 2 then f + 1
               else if even f then f else f + 1)"

definition fl_gen :: "nat \<Rightarrow> int \<Rightarrow> real \<Rightarrow> real" where
  "fl_gen p emin x =
     (if x = 0 then 0
      else let e = max \<lfloor>log 2 \<bar>x\<bar>\<rfloor> emin; ulp = 2 powi (e - int p + 1)
           in of_int (rne (x / ulp)) * ulp)"

definition fl :: "real \<Rightarrow> real" where
  "fl x = fl_gen 53 (- 1022) x"

definition fl32 :: "real \<Rightarrow> real" where
  "fl32 x = fl_gen 24 (- 126) x"

text \<open>
  \<open>dbl neg r\<close> is the Number that an operation of exact result \<open>r\<close> returns: \<open>r\<close>
  rounded, an infinity on overflow (a rounded magnitude of \<open>2 ^ 1024\<close> or more), and a
  zero of sign \<open>neg\<close> when the rounded result is zero. \<open>least_normal\<close> is the least
  positive normal double.
\<close>

definition dbl_overflow :: real where
  "dbl_overflow = 2 ^ 1024"

definition least_normal :: real where
  "least_normal = 2 powi (- 1022)"

definition dbl :: "bool \<Rightarrow> real \<Rightarrow> jsnum" where
  "dbl neg r =
     (let q = fl r
      in if q \<ge> dbl_overflow then PosInf else if q \<le> - dbl_overflow then NegInf
         else if q = 0 then (if neg then NegZero else Fin 0) else Fin q)"

subsection \<open>Arithmetic and the Math functions\<close>

definition js_neg :: "jsnum \<Rightarrow> jsnum" where
  "js_neg x = (case x of Fin r \<Rightarrow> (if r = 0 then NegZero else Fin (- r)) | NegZero \<Rightarrow> Fin 0
                 | PosInf \<Rightarrow> NegInf | NegInf \<Rightarrow> PosInf | NaN \<Rightarrow> NaN)"

definition js_add :: "jsnum \<Rightarrow> jsnum \<Rightarrow> jsnum" where
  "js_add x y =
     (if x = NaN \<or> y = NaN then NaN
      else if is_inf x then (if is_inf y \<and> x \<noteq> y then NaN else x)
      else if is_inf y then y
      else let r = val x + val y
           in dbl (if r = 0 then is_neg x \<and> is_neg y else r < 0) r)"

definition js_sub :: "jsnum \<Rightarrow> jsnum \<Rightarrow> jsnum" where
  "js_sub x y = js_add x (js_neg y)"

definition js_mul :: "jsnum \<Rightarrow> jsnum \<Rightarrow> jsnum" where
  "js_mul x y =
     (if x = NaN \<or> y = NaN then NaN
      else if (is_inf x \<and> is_zero y) \<or> (is_zero x \<and> is_inf y) then NaN
      else if is_inf x \<or> is_inf y then (if is_neg x \<noteq> is_neg y then NegInf else PosInf)
      else dbl (is_neg x \<noteq> is_neg y) (val x * val y))"

definition js_div :: "jsnum \<Rightarrow> jsnum \<Rightarrow> jsnum" where
  "js_div x y =
     (if x = NaN \<or> y = NaN then NaN
      else if (is_inf x \<and> is_inf y) \<or> (is_zero x \<and> is_zero y) then NaN
      else if is_inf x \<or> is_zero y then (if is_neg x \<noteq> is_neg y then NegInf else PosInf)
      else if is_inf y then (if is_neg x \<noteq> is_neg y then NegZero else Fin 0)
      else dbl (is_neg x \<noteq> is_neg y) (val x / val y))"

definition js_lt :: "jsnum \<Rightarrow> jsnum \<Rightarrow> bool" where
  "js_lt x y =
     (if x = NaN \<or> y = NaN then False
      else if x = PosInf \<or> y = NegInf then False
      else if x = NegInf \<or> y = PosInf then True
      else val x < val y)"

definition js_gt :: "jsnum \<Rightarrow> jsnum \<Rightarrow> bool" where
  "js_gt x y = js_lt y x"

definition js_ge :: "jsnum \<Rightarrow> jsnum \<Rightarrow> bool" where
  "js_ge x y = (x \<noteq> NaN \<and> y \<noteq> NaN \<and> \<not> js_lt x y)"

text \<open>\<open>===\<close> on Numbers: NaN equals nothing, and the two zeros are equal.\<close>

definition js_eq :: "jsnum \<Rightarrow> jsnum \<Rightarrow> bool" where
  "js_eq x y = (x \<noteq> NaN \<and> y \<noteq> NaN \<and> \<not> js_lt x y \<and> \<not> js_lt y x)"

definition js_max :: "jsnum \<Rightarrow> jsnum \<Rightarrow> jsnum" where
  "js_max x y =
     (if x = NaN \<or> y = NaN then NaN
      else if js_lt x y then y else if js_lt y x then x
      else if is_neg x then y else x)"

definition js_min :: "jsnum \<Rightarrow> jsnum \<Rightarrow> jsnum" where
  "js_min x y =
     (if x = NaN \<or> y = NaN then NaN
      else if js_lt x y then x else if js_lt y x then y
      else if is_neg x then x else y)"

definition js_floor :: "jsnum \<Rightarrow> jsnum" where
  "js_floor x = (case x of Fin r \<Rightarrow> Fin (of_int \<lfloor>r\<rfloor>) | _ \<Rightarrow> x)"

definition js_ceil :: "jsnum \<Rightarrow> jsnum" where
  "js_ceil x = (case x of Fin r \<Rightarrow> (if - 1 < r \<and> r < 0 then NegZero else Fin (of_int \<lceil>r\<rceil>))
                 | _ \<Rightarrow> x)"

text \<open>\<open>Math.round\<close> rounds to the nearest integer, a tie towards positive infinity.\<close>

definition js_round :: "jsnum \<Rightarrow> jsnum" where
  "js_round x = (case x of Fin r \<Rightarrow> (if - (1 / 2) \<le> r \<and> r < 0 then NegZero
                                        else Fin (of_int \<lfloor>r + 1 / 2\<rfloor>))
                  | _ \<Rightarrow> x)"

definition js_abs :: "jsnum \<Rightarrow> jsnum" where
  "js_abs x = (case x of Fin r \<Rightarrow> Fin \<bar>r\<bar> | NegZero \<Rightarrow> Fin 0 | NegInf \<Rightarrow> PosInf | _ \<Rightarrow> x)"

text \<open>\<open>Math.sqrt\<close>, taken as the correctly rounded square root.\<close>

definition js_sqrt :: "jsnum \<Rightarrow> jsnum" where
  "js_sqrt x = (case x of Fin r \<Rightarrow> (if r < 0 then NaN else dbl False (sqrt r))
                 | NegZero \<Rightarrow> NegZero | PosInf \<Rightarrow> PosInf | _ \<Rightarrow> NaN)"

definition js_isFinite :: "jsnum \<Rightarrow> bool" where
  "js_isFinite x = (x \<noteq> NaN \<and> \<not> is_inf x)"

text \<open>Truthiness of a Number: the zeros and NaN are falsy.\<close>

definition num_truthy :: "jsnum \<Rightarrow> bool" where
  "num_truthy x = (x \<noteq> NaN \<and> \<not> is_zero x)"

section \<open>Half-float decoding (gguf-parser.js, \<open>f16ToF32\<close>)\<close>

text \<open>
  The argument is an element of a \<open>Uint16Array\<close> (or the result of \<open>getUint16\<close>), hence
  a 16-bit word. Every intermediate value of the source's arithmetic is a dyadic
  rational of at most 11 significant bits with an exponent between -24 and 16, so each
  floating-point operation of the source is exact and is written as the exact operation.
\<close>

definition f16ToF32 :: "16 word \<Rightarrow> jsnum" where
  "f16ToF32 h =
     (let sign = drop_bit 15 (h AND 0x8000);
          exp = drop_bit 10 (h AND 0x7C00);
          frac = h AND 0x03FF
      in if exp = 0 then
           (if frac = 0 then (if sign \<noteq> 0 then NegZero else Fin 0)
            else Fin ((if sign \<noteq> 0 then - 1 else 1) * 2 powi (- 14) * (real (unat frac) / 1024)))
         else if exp = 0x1F then
           (if frac \<noteq> 0 then NaN else (if sign \<noteq> 0 then NegInf else PosInf))
         else Fin ((if sign \<noteq> 0 then - 1 else 1) * 2 powi (int (unat exp) - 15)
                     * (1 + real (unat frac) / 1024)))"

section \<open>Binary cursor (gguf-parser.js, \<open>BufferReader\<close>)\<close>

text \<open>
  The buffer is a list of bytes and the cursor a position in it; a read returns the
  value and the new position, or the error the source throws. Positions and lengths are
  natural numbers: an \<open>ArrayBuffer\<close> is shorter than \<open>2 ^ 53\<close> bytes, where the source's
  arithmetic on positions is exact.
\<close>

type_synonym byte = "8 word"

datatype error =
    BUFFER_TOO_SMALL
  | NotValidGGUF nat
  | UnsupportedVersion nat
  | UnknownValueType nat
  | CallStackExceeded
  | RangeError

definition bnd :: "'e + 'a \<Rightarrow> ('a \<Rightarrow> 'e + 'b) \<Rightarrow> 'e + 'b" where
  "bnd m f = (case m of Inl e \<Rightarrow> Inl e | Inr x \<Rightarrow> f x)"

text \<open>Little-endian value of a byte sequence, as \<open>DataView\<close> reads it.\<close>

fun le_bytes :: "byte list \<Rightarrow> nat" where
  "le_bytes [] = 0"
| "le_bytes (b # bs) = unat b + 256 * le_bytes bs"

definition getUint :: "nat \<Rightarrow> byte list \<Rightarrow> nat \<Rightarrow> nat" where
  "getUint n buf off = le_bytes (take n (drop off buf))"

definition getInt :: "nat \<Rightarrow> byte list \<Rightarrow> nat \<Rightarrow> int" where
  "getInt n buf off =
     (let u = getUint n buf off
      in if u \<ge> 2 ^ (8 * n - 1) then int u - 2 ^ (8 * n) else int u)"

text \<open>
  The value of an IEEE 754 bit pattern with \<open>ebits\<close> exponent bits and \<open>fbits\<close>
  fraction bits, as \<open>getFloat32\<close> (8, 23) and \<open>getFloat64\<close> (11, 52) return it.
\<close>

definition decode_float :: "nat \<Rightarrow> nat \<Rightarrow> nat \<Rightarrow> jsnum" where
  "decode_float ebits fbits w =
     (let neg = (w div 2 ^ (ebits + fbits)) mod 2 = 1;
          ex = (w div 2 ^ fbits) mod 2 ^ ebits;
          fr = w mod 2 ^ fbits;
          bias = int (2 ^ (ebits - 1)) - 1;
          sg = (if neg then - 1 else 1 :: real)
      in if ex = 0 then
           (if fr = 0 then (if neg then NegZero else Fin 0)
            else Fin (sg * real fr * 2 powi (1 - bias - int fbits)))
         else if ex = 2 ^ ebits - 1 then
           (if fr = 0 then (if neg then NegInf else PosInf) else NaN)
         else Fin (sg * real (2 ^ fbits + fr) * 2 powi (int ex - bias - int fbits)))"

text \<open>
  \<open>Number(n)\<close> for a non-negative BigInt \<open>n\<close> below \<open>2 ^ 1024\<close>: \<open>n\<close> rounded to 53
  significant bits, a tie to the even significand. The result is an integer again and
  is kept as a natural number.
\<close>

fun bit_length :: "nat \<Rightarrow> nat" where
  "bit_length n = (if n = 0 then 0 else Suc (bit_length (n div 2)))"

definition Number_of_BigInt :: "nat \<Rightarrow> nat" where
  "Number_of_BigInt n =
     (if n < 2 ^ 53 then n
      else let sh = bit_length n - 53;
               q = n div 2 ^ sh;
               r = n mod 2 ^ sh;
               half = 2 ^ (sh - 1)
           in (if r < half \<or> (r = half \<and> even q) then q else q + 1) * 2 ^ sh)"

definition readUint8 :: "byte list \<Rightarrow> nat \<Rightarrow> error + (nat \<times> nat)" where
  "readUint8 buf off =
     (if off + 1 > length buf then Inl BUFFER_TOO_SMALL else Inr (getUint 1 buf off, off + 1))"

definition readInt8 :: "byte list \<Rightarrow> nat \<Rightarrow> error + (int \<times> nat)" where
  "readInt8 buf off =
     (if off + 1 > length buf then Inl BUFFER_TOO_SMALL else Inr (getInt 1 buf off, off + 1))"

definition readUint16 :: "byte list \<Rightarrow> nat \<Rightarrow> error + (nat \<times> nat)" where
  "readUint16 buf off =
     (if off + 2 > length buf then Inl BUFFER_TOO_SMALL else Inr (getUint 2 buf off, off + 2))"

definition readInt16 :: "byte list \<Rightarrow> nat \<Rightarrow> error + (int \<times> nat)" where
  "readInt16 buf off =
     (if off + 2 > length buf then Inl BUFFER_TOO_SMALL else Inr (getInt 2 buf off, off + 2))"

definition readUint32 :: "byte list \<Rightarrow> nat \<Rightarrow> error + (nat \<times> nat)" where
  "readUint32 buf off =
     (if off + 4 > length buf then Inl BUFFER_TOO_SMALL else Inr (getUint 4 buf off, off + 4))"

definition readInt32 :: "byte list \<Rightarrow> nat \<Rightarrow> error + (int \<times> nat)" where
  "readInt32 buf off =
     (if off + 4 > length buf then Inl BUFFER_TOO_SMALL else Inr (getInt 4 buf off, off + 4))"

definition readUint64 :: "byte list \<Rightarrow> nat \<Rightarrow> error + (nat \<times> nat)" where
  "readUint64 buf off =
     (if off + 8 > length buf then Inl BUFFER_TOO_SMALL
      else let lo = getUint 4 buf off;
               hi = getUint 4 buf (off + 4)
           in if hi = 0 then Inr (lo, off + 8)
              else Inr (Number_of_BigInt (push_bit 32 hi OR lo), off + 8))"

text \<open>
  \<open>readInt64\<close>: the BigInt \<open>BigInt(hi) << 32n | BigInt(lo >>> 0)\<close> is \<open>hi * 2 ^ 32 + lo\<close>
  (the low 32 bits of the shifted \<open>hi\<close> are zero); the conversion to a Number rounds
  its magnitude.
\<close>

definition readInt64 :: "byte list \<Rightarrow> nat \<Rightarrow> error + (int \<times> nat)" where
  "readInt64 buf off =
     (if off + 8 > length buf then Inl BUFFER_TOO_SMALL
      else let lo = getUint 4 buf off;
               hi = getInt 4 buf (off + 4)
           in if hi = 0 \<and> lo < 0x80000000 then Inr (int lo, off + 8)
              else if hi = - 1 \<and> lo \<ge> 0x80000000 then Inr (int lo - 2 ^ 32, off + 8)
              else let n = hi * 2 ^ 32 + int lo
                   in Inr (sgn n * int (Number_of_BigInt (nat \<bar>n\<bar>)), off + 8))"

definition readFloat32 :: "byte list \<Rightarrow> nat \<Rightarrow> error + (jsnum \<times> nat)" where
  "readFloat32 buf off =
     (if off + 4 > length buf then Inl BUFFER_TOO_SMALL
      else Inr (decode_float 8 23 (getUint 4 buf off), off + 4))"

definition readFloat64 :: "byte list \<Rightarrow> nat \<Rightarrow> error + (jsnum \<times> nat)" where
  "readFloat64 buf off =
     (if off + 8 > length buf then Inl BUFFER_TOO_SMALL
      else Inr (decode_float 11 52 (getUint 8 buf off), off + 8))"

definition readBool :: "byte list \<Rightarrow> nat \<Rightarrow> error + (bool \<times> nat)" where
  "readBool buf off = bnd (readUint8 buf off) (\<lambda>(v, off'). Inr (v \<noteq> 0, off'))"

text \<open>
  \<open>new TextDecoder().decode(bytes)\<close> decodes UTF-8 without failing: every maximal
  ill-formed sequence of bytes gives one replacement character U+FFFD, and a byte order
  mark at the start is dropped. A string is kept as the bytes of its UTF-8 encoding, one
  \<open>char\<close> a byte, which is one-to-one on what the decoder returns. \<open>utf8_scrub\<close>
  is the decoder followed by that encoding; \<open>second_ok\<close> is the range the decoder
  allows for the byte after a lead byte of a sequence of three or four bytes.
\<close>

definition REPLACEMENT :: "byte list" where
  "REPLACEMENT = [0xEF, 0xBF, 0xBD]"

definition continuation :: "byte \<Rightarrow> bool" where
  "continuation c = (0x80 \<le> c \<and> c \<le> 0xBF)"

definition second_ok :: "byte \<Rightarrow> byte \<Rightarrow> bool" where
  "second_ok b c =
     ((if b = 0xE0 then 0xA0 else if b = 0xF0 then 0x90 else 0x80) \<le> c
      \<and> c \<le> (if b = 0xED then 0x9F else if b = 0xF4 then 0x8F else 0xBF))"

fun utf8_scrub :: "byte list \<Rightarrow> byte list" where
  "utf8_scrub [] = []"
| "utf8_scrub (b # bs) =
     (if b < 0x80 then b # utf8_scrub bs
      else if 0xC2 \<le> b \<and> b \<le> 0xDF then
        (case bs of
           [] \<Rightarrow> REPLACEMENT
         | c # cs \<Rightarrow> if continuation c then b # c # utf8_scrub cs
                     else REPLACEMENT @ utf8_scrub bs)
      else if 0xE0 \<le> b \<and> b \<le> 0xEF then
        (case bs of
           [] \<Rightarrow> REPLACEMENT
         | c # cs \<Rightarrow>
             if second_ok b c then
               (case cs of
                  [] \<Rightarrow> REPLACEMENT
                | d # ds \<Rightarrow> if continuation d then b # c # d # utf8_scrub ds
                            else REPLACEMENT @ utf8_scrub cs)
             else REPLACEMENT @ utf8_scrub bs)
      else if 0xF0 \<le> b \<and> b \<le> 0xF4 then
        (case bs of
           [] \<Rightarrow> REPLACEMENT
         | c # cs \<Rightarrow>
             if second_ok b c then
               (case cs of
                  [] \<Rightarrow> REPLACEMENT
                | d # ds \<Rightarrow>
                    if continuation d then
                      (case ds of
                         [] \<Rightarrow> REPLACEMENT
                       | e # es \<Rightarrow> if continuation e then b # c # d # e # utf8_scrub es
                                   else REPLACEMENT @ utf8_scrub ds)
                    else REPLACEMENT @ utf8_scrub cs)
             else REPLACEMENT @ utf8_scrub bs)
      else REPLACEMENT @ utf8_scrub bs)"

definition TextDecoder_decode :: "byte list \<Rightarrow> string" where
  "TextDecoder_decode bytes =
     (let out = utf8_scrub bytes
      in map (\<lambda>b. char_of (unat b))
           (if take 3 out = [0xEF, 0xBB, 0xBF] then drop 3 out else out))"

definition readString :: "byte list \<Rightarrow> nat \<Rightarrow> error + (string \<times> nat)" where
  "readString buf off =
     bnd (readUint64 buf off) (\<lambda>(len, off').
       if off' + len > length buf then Inl BUFFER_TOO_SMALL
       else Inr (TextDecoder_decode (take len (drop off' buf)), off' + len))"

text \<open>A loop that makes \<open>n\<close> reads in a row and collects the values.\<close>

fun read_many :: "(nat \<Rightarrow> error + ('a \<times> nat)) \<Rightarrow> nat \<Rightarrow> nat \<Rightarrow> error + ('a list \<times> nat)" where
  "read_many rd 0 off = Inr ([], off)"
| "read_many rd (Suc n) off =
     bnd (rd off) (\<lambda>(v, off'). bnd (read_many rd n off') (\<lambda>(vs, off''). Inr (v # vs, off'')))"

text \<open>Metadata values: the closed set of shapes \<open>readValue\<close> produces.\<close>

datatype jsval = VNum jsnum | VBool bool | VStr string | VArr "jsval list"

text \<open>
  \<open>readValue\<close> calls itself for the elements of an array. The first argument bounds
  the depth of these nested calls, as the call stack of the host does; every nested
  array costs 12 bytes of the buffer, so a bound above the buffer length is never
  reached (lemma \<open>readValue_depth\<close> below).
\<close>

fun readValue :: "nat \<Rightarrow> byte list \<Rightarrow> nat \<Rightarrow> nat \<Rightarrow> error + (jsval \<times> nat)" where
  "readValue 0 buf ty off = Inl CallStackExceeded"
| "readValue (Suc d) buf ty off =
     (if ty = 0 then bnd (readUint8 buf off) (\<lambda>(v, off'). Inr (VNum (num v), off'))
      else if ty = 1 then bnd (readInt8 buf off) (\<lambda>(v, off'). Inr (VNum (Fin (of_int v)), off'))
      else if ty = 2 then bnd (readUint16 buf off) (\<lambda>(v, off'). Inr (VNum (num v), off'))
      else if ty = 3 then bnd (readInt16 buf off) (\<lambda>(v, off'). Inr (VNum (Fin (of_int v)), off'))
      else if ty = 4 then bnd (readUint32 buf off) (\<lambda>(v, off'). Inr (VNum (num v), off'))
      else if ty = 5 then bnd (readInt32 buf off) (\<lambda>(v, off'). Inr (VNum (Fin (of_int v)), off'))
      else if ty = 6 then bnd (readFloat32 buf off) (\<lambda>(v, off'). Inr (VNum v, off'))
      else if ty = 7 then bnd (readBool buf off) (\<lambda>(v, off'). Inr (VBool v, off'))
      else if ty = 8 then bnd (readString buf off) (\<lambda>(v, off'). Inr (VStr v, off'))
      else if ty = 10 then bnd (readUint64 buf off) (\<lambda>(v, off'). Inr (VNum (num v), off'))
      else if ty = 11 then bnd (readInt64 buf off) (\<lambda>(v, off'). Inr (VNum (Fin (of_int v)), off'))
      else if ty = 12 then bnd (readFloat64 buf off) (\<lambda>(v, off'). Inr (VNum v, off'))
      else if ty = 9 then
        bnd (readUint32 buf off) (\<lambda>(arrType, off1).
        bnd (readUint64 buf off1) (\<lambda>(arrLen, off2).
        bnd (read_many (readValue d buf arrType) arrLen off2) (\<lambda>(arr, off3).
        Inr (VArr arr, off3))))
      else Inl (UnknownValueType ty))"

section \<open>Header parser (gguf-parser.js, \<open>_parseHeader\<close> and \<open>parseGGUFHeader\<close>)\<close>

record tensor =
  name :: string
  dims :: "nat list"
  ggml_type :: nat
  offset :: nat
  numElements :: jsnum
  dataSize :: jsnum

text \<open>\<open>QUANT_INFO\<close>: block size and bytes per block of the known tensor types.\<close>

definition QUANT_INFO :: "(nat \<times> nat \<times> nat) list" where
  "QUANT_INFO =
     [(0, 1, 4), (1, 1, 2), (34, 1, 2), (2, 32, 18), (3, 32, 20), (6, 32, 22), (7, 32, 24),
      (8, 32, 34), (9, 32, 40), (10, 256, 84), (11, 256, 110), (12, 256, 110),
      (13, 256, 110), (14, 256, 144), (15, 256, 144), (16, 256, 176), (17, 256, 176),
      (18, 256, 210), (19, 256, 292), (28, 1, 1), (29, 1, 2), (30, 1, 4), (31, 1, 8),
      (32, 1, 8)]"

type_synonym metadata_table = "string \<rightharpoonup> jsval"

text \<open>
  The metadata loop of \<open>_parseHeader\<close>; the progress callback, which only notifies
  the caller, is left out. The depth bound given to \<open>readValue\<close> exceeds the buffer
  length. The table is a plain object: the assignment \<open>metadata[key] = value\<close> stores
  an own property for every key but \<open>__proto__\<close>, for which it stores none (it
  replaces the prototype when the value is an array, which changes no read of a key that
  \<open>extractArchInfo\<close> makes).
\<close>

definition setProperty :: "metadata_table \<Rightarrow> string \<Rightarrow> jsval \<Rightarrow> metadata_table" where
  "setProperty md key v = (if key = ''__proto__'' then md else md(key \<mapsto> v))"

fun readMetadata :: "byte list \<Rightarrow> nat \<Rightarrow> metadata_table \<Rightarrow> nat \<Rightarrow> error + (metadata_table \<times> nat)" where
  "readMetadata buf 0 md off = Inr (md, off)"
| "readMetadata buf (Suc n) md off =
     bnd (readString buf off) (\<lambda>(key, off1).
     bnd (readUint32 buf off1) (\<lambda>(valueType, off2).
     bnd (readValue (Suc (length buf)) buf valueType off2) (\<lambda>(v, off3).
     readMetadata buf n (setProperty md key v) off3)))"

definition readTensorInfo :: "byte list \<Rightarrow> nat \<Rightarrow> error + (tensor \<times> nat)" where
  "readTensorInfo buf off =
     bnd (readString buf off) (\<lambda>(nm, off1).
     bnd (readUint32 buf off1) (\<lambda>(nDims, off2).
     bnd (read_many (readUint64 buf) nDims off2) (\<lambda>(ds, off3).
     bnd (readUint32 buf off3) (\<lambda>(ty, off4).
     bnd (readUint64 buf off4) (\<lambda>(toff, off5).
       let n = foldl (\<lambda>a b. js_mul a (num b)) (num 1) ds;
           sz = (case map_of QUANT_INFO ty of
                   Some (blockSize, bytesPerBlock) \<Rightarrow>
                     js_mul (js_ceil (js_div n (num blockSize))) (num bytesPerBlock)
                 | None \<Rightarrow> js_mul n (num 4))
       in Inr (\<lparr>name = nm, dims = ds, ggml_type = ty, offset = toff,
                 numElements = n, dataSize = sz\<rparr>, off5))))))"

text \<open>
  Everything \<open>_parseHeader\<close> does up to the end of the tensor-info entries: the result
  carries the position of the cursor there (\<open>headerEnd\<close> in the source).
\<close>

definition parseEntries ::
  "byte list \<Rightarrow> error + (nat \<times> nat \<times> metadata_table \<times> tensor list \<times> nat)" where
  "parseEntries buf =
     bnd (readUint32 buf 0) (\<lambda>(magic, off1).
     if magic \<noteq> 0x46554747 then Inl (NotValidGGUF magic)
     else bnd (readUint32 buf off1) (\<lambda>(ver, off2).
     if ver < 2 \<or> ver > 3 then Inl (UnsupportedVersion ver)
     else bnd (readUint64 buf off2) (\<lambda>(tensorCount, off3).
     bnd (readUint64 buf off3) (\<lambda>(metadataKVCount, off4).
     bnd (readMetadata buf metadataKVCount Map.empty off4) (\<lambda>(md, off5).
     bnd (read_many (readTensorInfo buf) tensorCount off5) (\<lambda>(ts, headerEnd).
     Inr (ver, tensorCount, md, ts, headerEnd)))))))"

record header =
  metadata :: metadata_table
  tensors :: "tensor list"
  tensorDataOffset :: nat
  version :: nat
  tensorCount :: nat

definition ALIGNMENT :: nat where
  "ALIGNMENT = 32"

text \<open>
  \<open>_parseHeader(file, readSize)\<close>: the file is its list of bytes, and
  \<open>file.slice(0, readSize)\<close> is \<open>take readSize file\<close>. The quotient
  \<open>headerEnd / ALIGNMENT\<close> is exact, the divisor being a power of two.
\<close>

definition parseHeader :: "byte list \<Rightarrow> nat \<Rightarrow> error + header" where
  "parseHeader file readSize =
     bnd (parseEntries (take readSize file)) (\<lambda>(ver, tc, md, ts, headerEnd).
       Inr \<lparr>metadata = md, tensors = ts,
            tensorDataOffset = nat \<lceil>real headerEnd / real ALIGNMENT\<rceil> * ALIGNMENT,
            version = ver, tensorCount = tc\<rparr>)"

text \<open>
  The retry loop of \<open>parseGGUFHeader\<close>. The result carries, besides what the source
  returns or throws, the sizes of the slices read, in order. The loop is a partial
  function: that it returns is theorem material, not an assumption.
\<close>

partial_function (option) retry :: "byte list \<Rightarrow> nat \<Rightarrow> nat list \<Rightarrow> (nat list \<times> (error + header)) option" where
  "retry file readSize tried =
     (case parseHeader file readSize of
        Inr r \<Rightarrow> Some (tried @ [readSize], Inr r)
      | Inl e \<Rightarrow>
          if e = BUFFER_TOO_SMALL \<and> readSize < length file
          then retry file (min (length file) (readSize * 4)) (tried @ [readSize])
          else Some (tried @ [readSize], Inl e))"

definition parseGGUFHeader :: "byte list \<Rightarrow> (nat list \<times> (error + header)) option" where
  "parseGGUFHeader file = retry file (min (length file) (10 * 1024 * 1024)) []"

section \<open>Architecture extractor (gguf-parser.js, \<open>extractArchInfo\<close>)\<close>

text \<open>
  A property read \<open>metadata[key]\<close> gives \<open>undefined\<close> for an absent key: a value of
  type \<open>jsval option\<close>, \<open>None\<close> being \<open>undefined\<close>. The conversions of the language
  that depend on the text of a string or of an array are those of the host and are
  parameters of the model: \<open>toString\<close> (\<open>ToString\<close> of a value that is not a string),
  \<open>stringToNumber\<close> (\<open>ToNumber\<close> of a string) and \<open>stringLength\<close> (the number of
  UTF-16 code units of a string). So is the memory of the host: \<open>canAllocate n\<close> says
  whether the host allocates typed arrays of \<open>n\<close> elements when the point cloud asks
  for them.
\<close>

record host =
  toString :: "jsval \<Rightarrow> string"
  stringToNumber :: "string \<Rightarrow> jsnum"
  stringLength :: "string \<Rightarrow> nat"
  canAllocate :: "nat \<Rightarrow> bool"

definition truthy :: "jsval option \<Rightarrow> bool" where
  "truthy v = (case v of None \<Rightarrow> False | Some (VNum x) \<Rightarrow> num_truthy x | Some (VBool b) \<Rightarrow> b
                 | Some (VStr s) \<Rightarrow> s \<noteq> [] | Some (VArr xs) \<Rightarrow> True)"

text \<open>\<open>a || b\<close> and \<open>a ?? b\<close>.\<close>

definition js_or :: "jsval option \<Rightarrow> jsval option \<Rightarrow> jsval option" where
  "js_or a b = (if truthy a then a else b)"

definition js_nullish :: "jsval option \<Rightarrow> jsval option \<Rightarrow> jsval option" where
  "js_nullish a b = (case a of None \<Rightarrow> b | Some v \<Rightarrow> Some v)"

text \<open>The string a template literal makes of a value.\<close>

definition template :: "host \<Rightarrow> jsval \<Rightarrow> string" where
  "template h v = (case v of VStr s \<Rightarrow> s | _ \<Rightarrow> toString h v)"

text \<open>
  The relational comparison \<open>a < b\<close>: an array is first converted to a string; two
  strings are compared as sequences of code units, anything else as Numbers.
\<close>

definition toPrimitive :: "host \<Rightarrow> jsval \<Rightarrow> jsval" where
  "toPrimitive h v = (case v of VArr xs \<Rightarrow> VStr (toString h v) | _ \<Rightarrow> v)"

definition toNumber :: "host \<Rightarrow> jsval option \<Rightarrow> jsnum" where
  "toNumber h v =
     (case v of None \<Rightarrow> NaN
      | Some u \<Rightarrow> (case toPrimitive h u of VNum x \<Rightarrow> x
                    | VBool b \<Rightarrow> (if b then Fin 1 else Fin 0)
                    | VStr s \<Rightarrow> stringToNumber h s
                    | VArr xs \<Rightarrow> NaN))"

definition str_less :: "string \<Rightarrow> string \<Rightarrow> bool" where
  "str_less s t = lexordp (\<lambda>a b. (of_char a :: nat) < of_char b) s t"

definition js_less :: "host \<Rightarrow> jsval option \<Rightarrow> jsval option \<Rightarrow> bool" where
  "js_less h a b =
     (case (map_option (toPrimitive h) a, map_option (toPrimitive h) b) of
        (Some (VStr s), Some (VStr t)) \<Rightarrow> str_less s t
      | _ \<Rightarrow> js_lt (toNumber h a) (toNumber h b))"

record archinfo =
  architecture :: jsval
  blockCount :: jsval
  contextLength :: jsval
  embeddingLength :: jsval
  feedForwardLength :: jsval
  headCount :: jsval
  headCountKV :: jsval
  expertCount :: jsval
  expertUsedCount :: jsval
  vocabSize :: jsval
  ropeFreqBase :: jsval
  ropeDimensionCount :: jsval
  isMoE :: bool
  isGQA :: bool
  headDim :: jsnum

text \<open>The local function \<open>get\<close> of \<open>extractArchInfo\<close>, for the architecture \<open>arch\<close>.\<close>

definition get :: "host \<Rightarrow> metadata_table \<Rightarrow> jsval \<Rightarrow> string \<Rightarrow> jsval option" where
  "get h md arch key = js_nullish (md key) (md (template h arch @ ''.'' @ key))"

text \<open>\<open>x || 0\<close>, which is never \<open>undefined\<close>.\<close>

definition or0 :: "jsval option \<Rightarrow> jsval" where
  "or0 a = (case js_or a (Some (VNum (Fin 0))) of Some v \<Rightarrow> v | None \<Rightarrow> VNum (Fin 0))"

text \<open>The \<open>length\<close> property of a value, \<open>undefined\<close> where it has none.\<close>

definition js_length :: "host \<Rightarrow> jsval option \<Rightarrow> jsval option" where
  "js_length h v = (case v of Some (VArr xs) \<Rightarrow> Some (VNum (num (length xs)))
                      | Some (VStr s) \<Rightarrow> Some (VNum (num (stringLength h s)))
                      | _ \<Rightarrow> None)"

text \<open>
  \<open>extractArchInfo\<close>. The fields \<open>name\<close>, \<open>fileType\<close>, \<open>fileTypeName\<close> and
  \<open>quantVersionOverride\<close> of the source's result are read from fixed keys without
  \<open>get\<close>, and are not part of the record.
\<close>

definition extractArchInfo :: "host \<Rightarrow> metadata_table \<Rightarrow> archinfo" where
  "extractArchInfo h md =
     (let arch = (case js_or (md ''general.architecture'') (Some (VStr ''unknown'')) of
                    Some v \<Rightarrow> v | None \<Rightarrow> VStr ''unknown'');
          g = get h md arch;
          hc = or0 (g ''attention.head_count'');
          hckv = or0 (js_or (g ''attention.head_count_kv'') (g ''attention.head_count''));
          ec = or0 (g ''expert_count'');
          el = or0 (g ''embedding_length'')
      in \<lparr>architecture = arch,
           blockCount = or0 (g ''block_count''),
           contextLength = or0 (g ''context_length''),
           embeddingLength = el,
           feedForwardLength = or0 (g ''feed_forward_length''),
           headCount = hc,
           headCountKV = hckv,
           expertCount = ec,
           expertUsedCount = or0 (g ''expert_used_count''),
           vocabSize = or0 (js_or (g ''vocab_size'') (js_length h (md ''tokenizer.ggml.tokens''))),
           ropeFreqBase = or0 (g ''rope.freq_base''),
           ropeDimensionCount = or0 (g ''rope.dimension_count''),
           isMoE = js_less h (Some (VNum (Fin 1))) (Some ec),
           isGQA = (js_less h (Some (VNum (Fin 0))) (Some hckv) \<and> js_less h (Some hckv) (Some hc)),
           headDim = (if truthy (Some el) \<and> truthy (Some hc)
                      then js_floor (js_div (toNumber h (Some el)) (toNumber h (Some hc)))
                      else Fin 0)\<rparr>)"

text \<open>
  The fields that \<open>extractArchInfo\<close> resolves with \<open>get\<close> and \<open>|| 0\<close> alone, each
  with its key, and the architecture-namespaced form of a key.
\<close>

definition plain_fields :: "(string \<times> (archinfo \<Rightarrow> jsval)) list" where
  "plain_fields =
     [(''block_count'', blockCount), (''context_length'', contextLength),
      (''embedding_length'', embeddingLength), (''feed_forward_length'', feedForwardLength),
      (''attention.head_count'', headCount), (''expert_count'', expertCount),
      (''expert_used_count'', expertUsedCount), (''rope.freq_base'', ropeFreqBase),
      (''rope.dimension_count'', ropeDimensionCount)]"

definition namespaced :: "host \<Rightarrow> metadata_table \<Rightarrow> string \<Rightarrow> string" where
  "namespaced h md key = template h (architecture (extractArchInfo h md)) @ ''.'' @ key"

section \<open>Concrete inputs\<close>

text \<open>
  A complete header of 41 bytes: the magic, version 3, no tensor, and one metadata
  entry, the key \<open>a\<close> with the 32-bit unsigned value 7.
\<close>

definition hdr0 :: "byte list" where
  "hdr0 = [0x47, 0x47, 0x55, 0x46, 3, 0, 0, 0,
           0, 0, 0, 0, 0, 0, 0, 0,
           1, 0, 0, 0, 0, 0, 0, 0,
           1, 0, 0, 0, 0, 0, 0, 0, 0x61,
           4, 0, 0, 0,
           7, 0, 0, 0]"

section \<open>Point allocation (point-cloud.js, \<open>generatePointCloud\<close>, first part)\<close>

definition MIN_POINTS_PER_TENSOR :: nat where
  "MIN_POINTS_PER_TENSOR = 400"

text \<open>
  The proportional allocation with its floor: \<open>rawCounts\<close> is the \<open>pointCount\<close> of
  each entry of \<open>tensorAllocs\<close> as first assigned, \<open>targetPointCount\<close> being any
  Number.
\<close>

definition totalParams :: "tensor list \<Rightarrow> jsnum" where
  "totalParams ts = foldl (\<lambda>s t. js_add s (numElements t)) (Fin 0) ts"

definition rawCounts :: "tensor list \<Rightarrow> jsnum \<Rightarrow> jsnum list" where
  "rawCounts ts targetPointCount =
     (let decimationRatio = js_div (totalParams ts) targetPointCount
      in map (\<lambda>t. js_max (num MIN_POINTS_PER_TENSOR)
                      (js_floor (js_div (numElements t) decimationRatio))) ts)"

text \<open>The rescale pass: \<open>allocTotal\<close>, \<open>scale\<close>, and the counts after the pass.\<close>

definition allocTotal :: "jsnum list \<Rightarrow> jsnum" where
  "allocTotal counts = foldl js_add (Fin 0) counts"

definition rescaled :: "jsnum \<Rightarrow> jsnum \<Rightarrow> jsnum" where
  "rescaled scale pointCount = js_round (js_mul pointCount scale)"

definition rescale :: "jsnum \<Rightarrow> jsnum list \<Rightarrow> jsnum list" where
  "rescale targetPointCount counts =
     (if js_gt (allocTotal counts) (Fin 0)
      then let scale = js_div targetPointCount (allocTotal counts)
           in map (\<lambda>c. js_max (num MIN_POINTS_PER_TENSOR) (rescaled scale c)) counts
      else counts)"

definition pointCounts :: "tensor list \<Rightarrow> jsnum \<Rightarrow> jsnum list" where
  "pointCounts ts targetPointCount = rescale targetPointCount (rawCounts ts targetPointCount)"

text \<open>\<open>actualTotal\<close>: the sum of the allocations after the rescale pass.\<close>

definition actualTotal :: "tensor list \<Rightarrow> jsnum \<Rightarrow> jsnum" where
  "actualTotal ts targetPointCount = allocTotal (pointCounts ts targetPointCount)"

section \<open>Loops, typed arrays and the random source\<close>

text \<open>
  The number of iterations of \<open>for (let i = 0; i < n; i++)\<close>, and \<open>None\<close> when the
  loop does not end: the counter \<open>i\<close> is a Number and stays at \<open>2 ^ 53\<close> once there.
\<close>

definition loop_iterations :: "jsnum \<Rightarrow> nat option" where
  "loop_iterations n =
     (case n of Fin r \<Rightarrow> (if r > 2 ^ 53 then None else Some (nat \<lceil>r\<rceil>))
      | PosInf \<Rightarrow> None
      | _ \<Rightarrow> Some 0)"

text \<open>
  Reading a \<open>Float32Array\<close> at a Number gives the element when the Number is an
  index of the array and \<open>undefined\<close> otherwise; storing rounds the value to single
  precision (\<open>f32\<close>) and does nothing outside the array, as \<open>xs[i := v]\<close> does.
\<close>

definition ta_get :: "jsnum list \<Rightarrow> jsnum \<Rightarrow> jsnum option" where
  "ta_get xs i =
     (case i of
        Fin r \<Rightarrow> (if r = of_int \<lfloor>r\<rfloor> \<and> 0 \<le> r \<and> r < real (length xs)
                   then Some (xs ! nat \<lfloor>r\<rfloor>) else None)
      | NegZero \<Rightarrow> (if xs = [] then None else Some (xs ! 0))
      | _ \<Rightarrow> None)"

definition f32_overflow :: real where
  "f32_overflow = 2 ^ 128"

definition f32 :: "jsnum \<Rightarrow> jsnum" where
  "f32 v =
     (case v of
        Fin r \<Rightarrow> (let q = fl32 r
                   in if q \<ge> f32_overflow then PosInf else if q \<le> - f32_overflow then NegInf
                      else if q = 0 then (if r < 0 then NegZero else Fin 0) else Fin q)
      | _ \<Rightarrow> v)"

text \<open>
  \<open>Math.random\<close> is a global of the host that the source calls with no argument:
  the model takes the sequence \<open>rng\<close> of the values it returns, and threads the number
  of values drawn so far.
\<close>

type_synonym random_source = "nat \<Rightarrow> jsnum"

text \<open>A decimal literal of the source denotes the double nearest to it.\<close>

definition lit :: "real \<Rightarrow> jsnum" where
  "lit r = dbl False r"

section \<open>Connection generator (point-cloud.js, \<open>_sampleLines\<close>)\<close>

type_synonym rgb = "jsnum \<times> jsnum \<times> jsnum"

definition TENSOR_COLORS :: "(string \<times> rgb) list" where
  "TENSOR_COLORS =
     [(''attn_q'', lit 0.27, lit 0.53, lit 1.00),
      (''attn_k'', lit 0.27, lit 0.67, lit 1.00),
      (''attn_v'', lit 0.27, lit 0.80, lit 1.00),
      (''attn_out'', lit 0.40, lit 0.53, lit 0.87),
      (''attn_norm'', lit 0.87, lit 0.87, lit 0.27),
      (''attn_other'', lit 0.33, lit 0.60, lit 0.87),
      (''ffn_gate'', lit 1.00, lit 0.53, lit 0.27),
      (''ffn_up'', lit 1.00, lit 0.67, lit 0.27),
      (''ffn_down'', lit 1.00, lit 0.40, lit 0.27),
      (''ffn_norm'', lit 0.87, lit 0.87, lit 0.27),
      (''ffn_other'', lit 1.00, lit 0.60, lit 0.33),
      (''moe_gate'', lit 0.00, lit 0.90, lit 0.85),
      (''moe_up'', lit 0.85, lit 0.25, lit 0.95),
      (''moe_down'', lit 0.95, lit 0.75, lit 0.10),
      (''embedding'', lit 0.27, lit 0.87, lit 0.53),
      (''output'', lit 0.67, lit 0.40, lit 1.00),
      (''output_norm'', lit 0.87, lit 0.87, lit 0.27),
      (''norm'', lit 0.87, lit 0.87, lit 0.27),
      (''other'', lit 0.53, lit 0.53, lit 0.60)]"

text \<open>
  \<open>TENSOR_COLORS\<close> is an object literal, so a property read also finds what it
  inherits from \<open>Object.prototype\<close>: for these names the value read is a function or
  an object, which is truthy and whose elements 0, 1 and 2 are \<open>undefined\<close>.
\<close>

definition Object_prototype_names :: "string list" where
  "Object_prototype_names =
     [''constructor'', ''__defineGetter__'', ''__defineSetter__'', ''hasOwnProperty'',
      ''__lookupGetter__'', ''__lookupSetter__'', ''isPrototypeOf'', ''propertyIsEnumerable'',
      ''toString'', ''valueOf'', ''__proto__'', ''toLocaleString'']"

text \<open>
  \<open>TENSOR_COLORS[category] || TENSOR_COLORS.other\<close>, as the three channels read from
  it. The channels of an inherited member are \<open>undefined\<close>; they are only ever
  multiplied, which gives \<open>NaN\<close>, and are \<open>NaN\<close> here.
\<close>

definition tensorColor :: "string \<Rightarrow> rgb" where
  "tensorColor cat =
     (case map_of TENSOR_COLORS cat of Some c \<Rightarrow> c
      | None \<Rightarrow> if cat \<in> set Object_prototype_names then (NaN, NaN, NaN)
                else (lit 0.53, lit 0.53, lit 0.60))"

record classification =
  category :: string
  layerIdx :: jsnum
  expertIdx :: jsnum

record region =
  rx :: jsnum
  ry :: jsnum
  rz :: jsnum
  width :: jsnum
  height :: jsnum
  depth :: jsnum

text \<open>
  An entry of \<open>tensorRegions\<close>. Its fields \<open>name\<close>, \<open>dims\<close> and \<open>type\<close> are those of
  the tensor, and \<open>category\<close>, \<open>layerIdx\<close> and \<open>expertIdx\<close> those of the classification;
  \<open>knownName\<close>, a display string made from the classification, is left out.
\<close>

record tensor_region =
  tr_tensor :: tensor
  tr_cls :: classification
  tr_region :: region
  startIdx :: nat
  endIdx :: nat

definition baseLine :: "jsnum \<Rightarrow> jsnum \<Rightarrow> jsnum" where
  "baseLine srcCount tgtCount =
     js_min (num 100) (js_max (num 8) (js_floor (js_sqrt (js_min srcCount tgtCount))))"

definition lineCount :: "jsnum \<Rightarrow> jsnum \<Rightarrow> jsnum \<Rightarrow> jsnum" where
  "lineCount srcCount tgtCount density =
     js_max (num 2) (js_round (js_mul (baseLine srcCount tgtCount) density))"

text \<open>
  The state of the line loop: the number of random values drawn, and the arrays
  \<open>outPos\<close> and \<open>outCol\<close>. An element pushed from outside \<open>positions\<close> is \<open>undefined\<close>.
\<close>

type_synonym line_state = "nat \<times> jsnum option list \<times> jsnum list"

definition vertex :: "jsnum list \<Rightarrow> jsnum \<Rightarrow> jsnum option list" where
  "vertex positions idx =
     [ta_get positions (js_mul idx (num 3)),
      ta_get positions (js_add (js_mul idx (num 3)) (num 1)),
      ta_get positions (js_add (js_mul idx (num 3)) (num 2))]"

definition dimmed :: "rgb \<Rightarrow> jsnum \<Rightarrow> jsnum list" where
  "dimmed c dimFactor = (case c of (r, g, b) \<Rightarrow>
     [js_mul r dimFactor, js_mul g dimFactor, js_mul b dimFactor])"

fun lineLoop ::
  "random_source \<Rightarrow> tensor_region \<Rightarrow> tensor_region \<Rightarrow> jsnum list \<Rightarrow> jsnum \<Rightarrow> nat \<Rightarrow> line_state \<Rightarrow> line_state" where
  "lineLoop rng src tgt positions dimFactor 0 st = st"
| "lineLoop rng src tgt positions dimFactor (Suc n) (k, outPos, outCol) =
     (let srcCount = js_sub (num (endIdx src)) (num (startIdx src));
          tgtCount = js_sub (num (endIdx tgt)) (num (startIdx tgt));
          sIdx = js_add (num (startIdx src)) (js_floor (js_mul (rng k) srcCount));
          tIdx = js_add (num (startIdx tgt)) (js_floor (js_mul (rng (k + 1)) tgtCount))
      in lineLoop rng src tgt positions dimFactor n
           (k + 2,
            outPos @ vertex positions sIdx @ vertex positions tIdx,
            outCol @ dimmed (tensorColor (category (tr_cls src))) dimFactor
                   @ dimmed (tensorColor (category (tr_cls tgt))) dimFactor))"

text \<open>\<open>_sampleLines\<close>; \<open>None\<close> when its loop does not end.\<close>

definition sampleLines ::
  "random_source \<Rightarrow> tensor_region \<Rightarrow> tensor_region \<Rightarrow> jsnum list \<Rightarrow> jsnum \<Rightarrow> jsnum \<Rightarrow> line_state \<Rightarrow> line_state option" where
  "sampleLines rng src tgt positions density dimFactor st =
     (let srcCount = js_sub (num (endIdx src)) (num (startIdx src));
          tgtCount = js_sub (num (endIdx tgt)) (num (startIdx tgt))
      in if js_eq srcCount (Fin 0) \<or> js_eq tgtCount (Fin 0) then Some st
         else map_option (\<lambda>n. lineLoop rng src tgt positions dimFactor n st)
                (loop_iterations (lineCount srcCount tgtCount density)))"

section \<open>Point cloud (point-cloud.js, \<open>generatePointCloud\<close>, second part)\<close>

text \<open>The remainder \<open>x % y\<close> of two Numbers, which is exact and has the sign of \<open>x\<close>.\<close>

definition js_rem :: "jsnum \<Rightarrow> jsnum \<Rightarrow> jsnum" where
  "js_rem x y =
     (if x = NaN \<or> y = NaN \<or> is_inf x \<or> is_zero y then NaN
      else if is_inf y \<or> is_zero x then x
      else let n = val x; d = val y;
               q = (if n / d < 0 then \<lceil>n / d\<rceil> else \<lfloor>n / d\<rfloor>);
               r = n - d * of_int q
           in if r = 0 then (if is_neg x then NegZero else Fin 0) else Fin r)"

text \<open>
  \<open>new Float32Array(n)\<close>: the length of the array, or the \<open>RangeError\<close> thrown. The
  length is first converted (\<open>ToIndex\<close>), and then the host allocates the array or
  throws.
\<close>

definition toIndex :: "jsnum \<Rightarrow> error + nat" where
  "toIndex n =
     (case n of
        Fin r \<Rightarrow> (let i = (if r < 0 then \<lceil>r\<rceil> else \<lfloor>r\<rfloor>)
                   in if i < 0 \<or> i > 2 ^ 53 - 1 then Inl RangeError else Inr (nat i))
      | NegZero \<Rightarrow> Inr 0
      | NaN \<Rightarrow> Inr 0
      | _ \<Rightarrow> Inl RangeError)"

definition newFloat32Array :: "host \<Rightarrow> jsnum \<Rightarrow> error + nat" where
  "newFloat32Array h n =
     (case toIndex n of
        Inl e \<Rightarrow> Inl e
      | Inr len \<Rightarrow> if canAllocate h len then Inr len else Inl RangeError)"

record alloc =
  tensor :: tensor
  cls :: classification
  pointCount :: jsnum

definition weightToColor :: "jsnum \<Rightarrow> jsnum \<Rightarrow> rgb" where
  "weightToColor v maxAbsVal =
     (let t = (if js_gt maxAbsVal (Fin 0) then js_div v maxAbsVal else Fin 0);
          clamped = js_max (Fin (- 1)) (js_min (num 1) t)
      in if js_lt clamped (Fin 0) then
           (let s = js_add (num 1) clamped
            in (js_add (lit 0.2) (js_mul (lit 0.8) s), js_add (lit 0.33) (js_mul (lit 0.67) s),
                lit 1.0))
         else
           (let s = clamped
            in (lit 1.0, js_sub (lit 1.0) (js_mul (lit 0.67) s),
                js_sub (lit 1.0) (js_mul (lit 0.8) s))))"

definition layerToColor :: "host \<Rightarrow> jsnum \<Rightarrow> jsval \<Rightarrow> rgb" where
  "layerToColor h lIdx totalLayers =
     (let t = (if js_less h (Some (VNum (Fin 1))) (Some totalLayers)
               then js_div lIdx (js_sub (toNumber h (Some totalLayers)) (num 1)) else Fin 0)
      in if js_lt t (lit 0.5) then
           (let s = js_mul t (num 2)
            in (js_add (js_mul (lit 0.13) (js_sub (num 1) s)) (js_mul (lit 0.27) s),
                js_add (js_mul (lit 0.8) (js_sub (num 1) s)) (js_mul (lit 0.53) s),
                js_add (js_mul (lit 0.53) (js_sub (num 1) s)) (js_mul (lit 1.0) s)))
         else
           (let s = js_mul (js_sub t (lit 0.5)) (num 2)
            in (js_add (js_mul (lit 0.27) (js_sub (num 1) s)) (js_mul (lit 0.67) s),
                js_add (js_mul (lit 0.53) (js_sub (num 1) s)) (js_mul (lit 0.27) s),
                lit 1.0)))"

text \<open>
  The maximum absolute value of the sampled weights, the loop before the points of a
  tensor are placed.
\<close>

definition maxAbsOf :: "jsnum list \<Rightarrow> jsnum" where
  "maxAbsOf ws =
     (let m = foldl (\<lambda>m w. let a = js_abs w in if js_gt a m \<and> js_isFinite a then a else m)
                (Fin 0) ws
      in if js_eq m (Fin 0) then Fin 1 else m)"

text \<open>
  The position of the point of index \<open>pidx\<close> (\<open>pi\<close> in the source) of a tensor in its region; \<open>r1\<close>, \<open>r2\<close> and \<open>r3\<close> are the
  three values \<open>Math.random\<close> returns for the jitter.
\<close>

definition pointPosition :: "alloc \<Rightarrow> region \<Rightarrow> nat \<Rightarrow> jsnum \<Rightarrow> jsnum \<Rightarrow> jsnum \<Rightarrow> jsnum \<times> jsnum \<times> jsnum" where
  "pointPosition a reg pidx r1 r2 r3 =
     (let ds = dims (tensor a);
          rows = (if length ds \<ge> 2 then num (ds ! 1) else num 1);
          cols = (if ds = [] \<or> ds ! 0 = 0 then num 1 else num (ds ! 0));
          paramIdx = js_floor (js_mul (num pidx) (js_div (numElements (tensor a)) (pointCount a)));
          row = (if js_gt rows (num 1) then js_floor (js_div paramIdx cols) else Fin 0);
          col = js_rem paramIdx cols;
          rowT = (if js_gt rows (num 1) then js_div row (js_sub rows (num 1)) else lit 0.5);
          colT = (if js_gt cols (num 1) then js_div col (js_sub cols (num 1)) else lit 0.5);
          jx = js_mul (js_sub r1 (lit 0.5)) (lit 0.3);
          jy = js_mul (js_sub r2 (lit 0.5)) (lit 0.3);
          jz = js_mul (js_sub r3 (lit 0.5)) (lit 0.15)
      in (js_add (rx reg)
            (js_mul (js_add colT (js_mul jx (js_div (num 1) (js_max cols (num 1))))) (width reg)),
          js_add (ry reg)
            (js_mul (js_add rowT (js_mul jy (js_div (num 1) (js_max rows (num 1))))) (height reg)),
          js_add (rz reg) (js_mul jz (depth reg))))"

text \<open>
  The three colour branches. \<open>usesWeights\<close> is the condition of the first branch;
  the last branch, the palette of the tensor's role with a brightness variation, is
  the only one that draws a random value.
\<close>

definition usesWeights :: "string \<Rightarrow> jsnum list option \<Rightarrow> nat \<Rightarrow> bool" where
  "usesWeights colorMode weightValues pidx =
     (colorMode = ''weight'' \<and> (case weightValues of None \<Rightarrow> False | Some ws \<Rightarrow> pidx < length ws))"

definition paletteColor :: "string \<Rightarrow> jsnum \<Rightarrow> rgb" where
  "paletteColor cat r4 =
     (case tensorColor cat of (r, g, b) \<Rightarrow>
        (let variation = js_add (lit 0.85) (js_mul r4 (lit 0.3))
         in (js_mul r variation, js_mul g variation, js_mul b variation)))"

definition layerColor :: "host \<Rightarrow> archinfo \<Rightarrow> classification \<Rightarrow> rgb" where
  "layerColor h archInfo c =
     (if js_ge (layerIdx c) (Fin 0)
      then layerToColor h (layerIdx c)
             (case js_or (Some (blockCount archInfo)) (Some (VNum (Fin 1))) of
                Some v \<Rightarrow> v | None \<Rightarrow> VNum (Fin 1))
      else (lit 0.5, lit 0.5, lit 0.6))"

text \<open>What is stored in \<open>colors\<close>: \<open>Math.min(1, .)\<close> of each channel, in single precision.\<close>

definition stored :: "rgb \<Rightarrow> jsnum list" where
  "stored c = (case c of (r, g, b) \<Rightarrow>
     [f32 (js_min (num 1) r), f32 (js_min (num 1) g), f32 (js_min (num 1) b)])"

text \<open>
  The state of the point loops: the number of random values drawn, \<open>globalIdx\<close>, and
  the arrays \<open>positions\<close> and \<open>colors\<close>.
\<close>

type_synonym point_state = "nat \<times> nat \<times> jsnum list \<times> jsnum list"

definition store3 :: "jsnum list \<Rightarrow> nat \<Rightarrow> jsnum list \<Rightarrow> jsnum list" where
  "store3 arr g vs = arr[g * 3 := vs ! 0, g * 3 + 1 := vs ! 1, g * 3 + 2 := vs ! 2]"

definition pointStep ::
  "host \<Rightarrow> random_source \<Rightarrow> archinfo \<Rightarrow> string \<Rightarrow> alloc \<Rightarrow> region \<Rightarrow> jsnum list option \<Rightarrow> jsnum \<Rightarrow> nat \<Rightarrow> point_state \<Rightarrow> point_state" where
  "pointStep h rng archInfo colorMode a reg weightValues maxAbs pidx st =
     (case st of (k, g, positions, colors) \<Rightarrow>
        (case pointPosition a reg pidx (rng k) (rng (k + 1)) (rng (k + 2)) of (x, y, z) \<Rightarrow>
           (let positions' = store3 positions g [f32 x, f32 y, f32 z]
            in if usesWeights colorMode weightValues pidx then
                 (k + 3, g + 1, positions',
                  store3 colors g (stored (weightToColor (the weightValues ! pidx) maxAbs)))
               else if colorMode = ''layer'' then
                 (k + 3, g + 1, positions',
                  store3 colors g (stored (layerColor h archInfo (cls a))))
               else
                 (k + 4, g + 1, positions',
                  store3 colors g (stored (paletteColor (category (cls a)) (rng (k + 3))))))))"

fun pointLoop ::
  "host \<Rightarrow> random_source \<Rightarrow> archinfo \<Rightarrow> string \<Rightarrow> alloc \<Rightarrow> region \<Rightarrow> jsnum list option \<Rightarrow> jsnum \<Rightarrow> nat \<Rightarrow> nat \<Rightarrow> point_state \<Rightarrow> point_state" where
  "pointLoop h rng archInfo colorMode a reg weightValues maxAbs 0 pidx st = st"
| "pointLoop h rng archInfo colorMode a reg weightValues maxAbs (Suc n) pidx st =
     pointLoop h rng archInfo colorMode a reg weightValues maxAbs n (Suc pidx)
       (pointStep h rng archInfo colorMode a reg weightValues maxAbs pidx st)"

text \<open>
  The layout is the object \<open>computeLayout\<close> returns, that is its method \<open>getRegion\<close>.
  The loop over the tensors (phase 2) takes each allocation with its sampled weights,
  \<open>None\<close> for \<open>null\<close>; it gives \<open>None\<close> when a point loop does not end.
\<close>

type_synonym layout = "string \<Rightarrow> jsnum \<Rightarrow> jsnum \<Rightarrow> tensor \<Rightarrow> region"

type_synonym cloud_state = "point_state \<times> tensor_region list"

fun tensorLoop ::
  "host \<Rightarrow> random_source \<Rightarrow> archinfo \<Rightarrow> string \<Rightarrow> layout \<Rightarrow> (alloc \<times> jsnum list option) list \<Rightarrow> cloud_state \<Rightarrow> cloud_state option" where
  "tensorLoop h rng archInfo colorMode getRegion [] st = Some st"
| "tensorLoop h rng archInfo colorMode getRegion ((a, weightValues) # rest) (ps, regs) =
     (case loop_iterations (pointCount a) of
        None \<Rightarrow> None
      | Some n \<Rightarrow>
          (let reg = getRegion (category (cls a)) (layerIdx (cls a)) (expertIdx (cls a)) (tensor a);
               maxAbs = (case weightValues of None \<Rightarrow> Fin 0 | Some ws \<Rightarrow> maxAbsOf ws);
               ps' = pointLoop h rng archInfo colorMode a reg weightValues maxAbs n 0 ps
           in tensorLoop h rng archInfo colorMode getRegion rest
                (ps', regs @ [\<lparr>tr_tensor = tensor a, tr_cls = cls a, tr_region = reg,
                                startIdx = fst (snd ps), endIdx = fst (snd ps')\<rparr>])))"

text \<open>
  Phase 1: with colour mode \<open>weight\<close> every tensor is sampled, and a sampling that
  fails gives \<open>null\<close> (\<open>.catch(() => null)\<close>); otherwise all entries stay \<open>null\<close>. The
  sampler reads the file, and is a parameter.
\<close>

type_synonym sampler = "tensor \<Rightarrow> jsnum \<Rightarrow> error + jsnum list"

definition sampleAll :: "sampler \<Rightarrow> string \<Rightarrow> alloc list \<Rightarrow> jsnum list option list" where
  "sampleAll sampleTensorWeights colorMode allocs =
     (if colorMode = ''weight''
      then map (\<lambda>a. case sampleTensorWeights (tensor a) (pointCount a) of
                      Inl e \<Rightarrow> None | Inr ws \<Rightarrow> Some ws) allocs
      else map (\<lambda>a. None) allocs)"

record point_cloud =
  positions :: "jsnum list"
  colors :: "jsnum list"
  tensorRegions :: "tensor_region list"
  actualPointCount :: nat

text \<open>
  \<open>generatePointCloud\<close>. Besides the sampler, the classifier of tensor names and
  \<open>computeLayout\<close> are parameters: what is proved below holds for every classifier and
  every layout. The progress callback is left out. The result is \<open>None\<close> when a loop
  does not end, and an error when allocating a buffer throws.
\<close>

definition generatePointCloud ::
  "host \<Rightarrow> random_source \<Rightarrow> sampler \<Rightarrow> (string \<Rightarrow> classification) \<Rightarrow> (archinfo \<Rightarrow> alloc list \<Rightarrow> layout)
     \<Rightarrow> archinfo \<Rightarrow> tensor list \<Rightarrow> jsnum \<Rightarrow> string \<Rightarrow> (error + point_cloud) option" where
  "generatePointCloud h rng sampleTensorWeights classifyTensor computeLayout archInfo ts
       targetPointCount colorMode =
     (let tensorAllocs = map (\<lambda>(t, c). \<lparr>tensor = t, cls = classifyTensor (name t), pointCount = c\<rparr>)
                           (zip ts (pointCounts ts targetPointCount));
          total = allocTotal (map pointCount tensorAllocs)
      in case newFloat32Array h (js_mul total (num 3)) of
           Inl e \<Rightarrow> Some (Inl e)
         | Inr len \<Rightarrow>
             (let getRegion = computeLayout archInfo tensorAllocs;
                  allWeights = sampleAll sampleTensorWeights colorMode tensorAllocs
              in map_option
                   (\<lambda>((k, g, pos, col), regs).
                      Inr \<lparr>positions = pos, colors = col, tensorRegions = regs,
                            actualPointCount = g\<rparr>)
                   (tensorLoop h rng archInfo colorMode getRegion (zip tensorAllocs allWeights)
                      ((0, 0, replicate len (Fin 0), replicate len (Fin 0)), []))))"

text \<open>
  A host whose conversions are trivial, and two metadata tables: one with a field under
  both its bare and its namespaced key, one with the attention head count under the
  namespaced key only.
\<close>

definition host0 :: host where
  "host0 = \<lparr>toString = (\<lambda>v. []), stringToNumber = (\<lambda>s. NaN), stringLength = length,
             canAllocate = (\<lambda>n. n < 2 ^ 32)\<rparr>"

definition md_both :: metadata_table where
  "md_both = [''general.architecture'' \<mapsto> VStr ''llama'',
              ''block_count'' \<mapsto> VNum (num 5),
              ''llama.block_count'' \<mapsto> VNum (num 32)]"

definition md_heads :: metadata_table where
  "md_heads = [''general.architecture'' \<mapsto> VStr ''llama'',
               ''llama.attention.head_count'' \<mapsto> VNum (num 32)]"

text \<open>The unit roundoff of doubles.\<close>

definition eps :: real where
  "eps = 2 powi (- 53)"

text \<open>
  The line count as the specification words it: the rounded product of the density and
  the square root clamped to between 8 and 100, over the reals.
\<close>

definition spec_lineCount :: "nat \<Rightarrow> nat \<Rightarrow> real \<Rightarrow> int" where
  "spec_lineCount s t d = \<lfloor>min 100 (max 8 (sqrt (real (min s t)))) * d + 1 / 2\<rfloor>"

text \<open>A tensor, a classification and a region to build entries of \<open>tensorRegions\<close> from, and a random source that always returns 0.\<close>

definition tensor0 :: tensor where
  "tensor0 = \<lparr>name = ''blk.0.attn_q.weight'', dims = [10, 10], ggml_type = 0, offset = 0,
              numElements = num 100, dataSize = num 400\<rparr>"

definition cls0 :: classification where
  "cls0 = \<lparr>category = ''attn_q'', layerIdx = Fin 0, expertIdx = Fin (- 1)\<rparr>"

definition region0 :: region where
  "region0 = \<lparr>rx = Fin 0, ry = Fin 0, rz = Fin 0, width = Fin 1, height = Fin 1, depth = Fin 1\<rparr>"

definition reg :: "nat \<Rightarrow> nat \<Rightarrow> tensor_region" where
  "reg a b = \<lparr>tr_tensor = tensor0, tr_cls = cls0, tr_region = region0, startIdx = a, endIdx = b\<rparr>"

definition rng0 :: random_source where
  "rng0 = (\<lambda>k. Fin 0)"

text \<open>A one-dimensional tensor of \<open>e\<close> 32-bit floats.\<close>

definition tensor_of :: "nat \<Rightarrow> tensor" where
  "tensor_of e = \<lparr>name = ''blk.0.ffn_up.weight'', dims = [e], ggml_type = 0, offset = 0,
                   numElements = num e, dataSize = num (4 * e)\<rparr>"

text \<open>
  The number of points the point loops place for a list of allocations, which bounds
  the number of random values drawn: at most four a point.
\<close>

definition pointTotal :: "jsnum list \<Rightarrow> nat" where
  "pointTotal counts =
     sum_list (map (\<lambda>c. case loop_iterations c of Some n \<Rightarrow> n | None \<Rightarrow> 0) counts)"

text \<open>
  Two more random sources, a source that returns 0.5 throughout and one that returns 0
  for its first 1600 values and 0.5 afterwards; a position buffer of 100 points whose
  entries are their own indices; and a sampler that always fails, a classifier and a
  layout that are constant.
\<close>

definition rng_half :: random_source where
  "rng_half = (\<lambda>k. Fin (1 / 2))"

definition ramp :: "jsnum list" where
  "ramp = map num [0..<300]"

definition rng_tail :: random_source where
  "rng_tail = (\<lambda>k. if k < 1600 then Fin 0 else Fin (1 / 2))"

definition sampler_fail :: sampler where
  "sampler_fail = (\<lambda>t n. Inl BUFFER_TOO_SMALL)"

definition classify0 :: "string \<Rightarrow> classification" where
  "classify0 = (\<lambda>s. cls0)"

definition layout0 :: "archinfo \<Rightarrow> alloc list \<Rightarrow> layout" where
  "layout0 = (\<lambda>archInfo allocs cat l e t. region0)"




text \<open>The list \<open>tensorAllocs\<close> of \<open>generatePointCloud\<close>, after the rescale pass.\<close>

definition tensorAllocs :: "(string \<Rightarrow> classification) \<Rightarrow> tensor list \<Rightarrow> jsnum \<Rightarrow> alloc list" where
  "tensorAllocs classifyTensor ts targetPointCount =
     map (\<lambda>(t, c). \<lparr>tensor = t, cls = classifyTensor (name t), pointCount = c\<rparr>)
       (zip ts (pointCounts ts targetPointCount))"


section \<open>Properties\<close>

declare bit_length.simps [simp del]

subsection \<open>The 64-bit read\<close>

lemma bit_length_bounds: "n < 2 ^ bit_length n \<and> (n \<noteq> 0 \<longrightarrow> 2 ^ (bit_length n - 1) \<le> n)"
proof (induction n rule: bit_length.induct)
  case (1 n)
  show ?case
  proof (cases "n = 0")
    case True
    then show ?thesis by (simp add: bit_length.simps)
  next
    case False
    then have bl: "bit_length n = Suc (bit_length (n div 2))"
      by (subst bit_length.simps) simp
    from 1 False have ih: "n div 2 < 2 ^ bit_length (n div 2)"
      and ih2: "n div 2 \<noteq> 0 \<Longrightarrow> 2 ^ (bit_length (n div 2) - 1) \<le> n div 2"
      by auto
    have a: "n < 2 ^ bit_length n"
      using ih bl by simp
    have b: "2 ^ (bit_length n - 1) \<le> n"
    proof (cases "n div 2 = 0")
      case True
      then have "n = 1" using False by auto
      then show ?thesis by (simp add: bl True bit_length.simps)
    next
      case F2: False
      then have "bit_length (n div 2) \<noteq> 0"
        by (subst bit_length.simps) simp
      then obtain k where k: "bit_length (n div 2) = Suc k"
        by (cases "bit_length (n div 2)") auto
      from ih2 F2 k have "2 ^ k \<le> n div 2" by simp
      then have "2 * 2 ^ k \<le> n" by linarith
      then show ?thesis by (simp add: bl k)
    qed
    from a b show ?thesis by simp
  qed
qed

lemma bit_length_eqI: "2 ^ k \<le> n \<Longrightarrow> n < 2 ^ Suc k \<Longrightarrow> bit_length n = Suc k"
proof -
  assume lo: "2 ^ k \<le> n" and hi: "n < 2 ^ Suc k"
  have n0: "n \<noteq> 0" using lo by (metis not_less power_not_zero zero_less_iff_neq_zero zero_neq_numeral le_zero_eq)
  from bit_length_bounds[of n] n0 have u: "n < 2 ^ bit_length n" and l: "2 ^ (bit_length n - 1) \<le> n"
    by auto
  from lo u have "(2::nat) ^ k < 2 ^ bit_length n" by linarith
  then have 1: "k < bit_length n" by (simp add: power_strict_increasing_iff)
  from l hi have "(2::nat) ^ (bit_length n - 1) < 2 ^ Suc k" by linarith
  then have 2: "bit_length n - 1 < Suc k"
    using power_strict_increasing_iff[of "2::nat" "bit_length n - 1" "Suc k"] by simp
  from 1 2 show ?thesis by linarith
qed

lemma le_bytes_append: "le_bytes (xs @ ys) = le_bytes xs + 2 ^ (8 * length xs) * le_bytes ys"
  by (induction xs) (simp_all add: algebra_simps power_add)

lemma le_bytes_bound: "le_bytes xs < 2 ^ (8 * length xs)"
proof (induction xs)
  case Nil
  then show ?case by simp
next
  case (Cons b bs)
  have "unat b < 256" using unsigned_less[of b] by simp
  moreover from Cons have "le_bytes bs + 1 \<le> 2 ^ (8 * length bs)" by simp
  then have "256 * (le_bytes bs + 1) \<le> 256 * 2 ^ (8 * length bs)" by simp
  ultimately have "unat b + 256 * le_bytes bs < 256 * 2 ^ (8 * length bs)" by simp
  then show ?case by (simp add: power_add)
qed

lemma getUint_bound: "getUint n buf off < 2 ^ (8 * n)"
proof -
  have "le_bytes (take n (drop off buf)) < 2 ^ (8 * length (take n (drop off buf)))"
    by (rule le_bytes_bound)
  also have "\<dots> \<le> 2 ^ (8 * n)" by (rule power_increasing) simp_all
  finally show ?thesis by (simp add: getUint_def)
qed

lemma getUint_split:
  assumes "off + 8 \<le> length buf"
  shows "getUint 8 buf off = getUint 4 buf off + 2 ^ 32 * getUint 4 buf (off + 4)"
proof -
  have "take 8 (drop off buf) = take 4 (drop off buf) @ take 4 (drop (off + 4) buf)"
    using take_add[of 4 4 "drop off buf"] by (simp add: add.commute)
  moreover have "length (take 4 (drop off buf)) = 4" using assms by simp
  ultimately show ?thesis by (simp add: getUint_def le_bytes_append)
qed

lemma push_bit_or_add:
  assumes "lo < 2 ^ 32"
  shows "push_bit 32 (hi::nat) OR lo = hi * 2 ^ 32 + lo"
proof -
  from assms have lo: "take_bit 32 lo = lo" by (simp add: take_bit_nat_eq_self)
  have "push_bit 32 hi AND take_bit 32 lo = 0"
    by (auto simp: bit_eq_iff bit_simps)
  then have "push_bit 32 hi + lo = push_bit 32 hi OR lo"
    unfolding lo by (rule disjunctive_add_eq_or)
  then show ?thesis by (simp add: push_bit_eq_mult)
qed

lemma Number_of_BigInt_exact: "n \<le> 2 ^ 53 \<Longrightarrow> Number_of_BigInt n = n"
proof (cases "n < 2 ^ 53")
  case True
  then show ?thesis by (simp add: Number_of_BigInt_def)
next
  case False
  assume "n \<le> 2 ^ 53"
  with False have n: "n = 9007199254740992" by simp
  have "bit_length 9007199254740992 = 54"
    using bit_length_eqI[of 53 9007199254740992] by simp
  then show ?thesis unfolding n by (simp add: Number_of_BigInt_def)
qed

lemma Number_of_BigInt_near:
  "2 * (if Number_of_BigInt n \<le> n then n - Number_of_BigInt n else Number_of_BigInt n - n)
     \<le> 2 ^ (bit_length n - 53)"
proof (cases "n < 2 ^ 53")
  case True
  then show ?thesis by (simp add: Number_of_BigInt_def)
next
  case False
  define sh where "sh = bit_length n - 53"
  define q where "q = n div 2 ^ sh"
  define r where "r = n mod 2 ^ sh"
  from False have "2 ^ 53 \<le> n" by simp
  with bit_length_bounds[of n] have "(2::nat) ^ 53 < 2 ^ bit_length n" by linarith
  then have "53 < bit_length n"
    using power_strict_increasing_iff[of "2::nat" 53 "bit_length n"] by simp
  then have sh: "sh = Suc (sh - 1)" by (simp add: sh_def)
  have half: "(2::nat) ^ sh = 2 * 2 ^ (sh - 1)" by (subst sh) simp
  have n: "n = q * 2 ^ sh + r"
    unfolding q_def r_def by (rule div_mult_mod_eq[symmetric])
  have r: "r < 2 ^ sh" by (simp add: r_def)
  have res: "Number_of_BigInt n =
      (if r < 2 ^ (sh - 1) \<or> (r = 2 ^ (sh - 1) \<and> even q) then q else q + 1) * 2 ^ sh"
    using False by (simp add: Number_of_BigInt_def Let_def sh_def q_def r_def)
  define P :: nat where "P = 2 ^ sh"
  define N where "N = Number_of_BigInt n"
  have "2 * (if N \<le> n then n - N else N - n) \<le> P"
  proof (cases "r < 2 ^ (sh - 1) \<or> (r = 2 ^ (sh - 1) \<and> even q)")
    case True
    then have "N = q * P" by (simp add: res N_def P_def)
    moreover from True have "2 * r \<le> P" using half by (auto simp: P_def)
    moreover have "n = q * P + r" using n by (simp add: P_def)
    ultimately show ?thesis by simp
  next
    case F: False
    then have e: "N = q * P + P" by (simp add: res N_def P_def)
    from F have "2 ^ (sh - 1) \<le> r" by auto
    then have "P \<le> 2 * r" using half by (simp add: P_def)
    moreover have "n = q * P + r" using n by (simp add: P_def)
    moreover have "r < P" using r by (simp add: P_def)
    ultimately show ?thesis using e by simp
  qed
  then show ?thesis unfolding N_def P_def sh_def .
qed

text \<open>
  C1, as amended. For every buffer and position with at least 8 bytes remaining, the
  64-bit unsigned read returns the little-endian value converted to a Number: exactly
  when the value is at most \<open>2 ^ 53\<close>, and otherwise rounded to 53 significant bits,
  within half the spacing of the doubles at that magnitude.
\<close>

theorem readUint64_rounds:
  assumes "off + 8 \<le> length buf"
  shows "readUint64 buf off = Inr (Number_of_BigInt (getUint 8 buf off), off + 8)
         \<and> (getUint 8 buf off \<le> 2 ^ 53 \<longrightarrow> readUint64 buf off = Inr (getUint 8 buf off, off + 8))
         \<and> 2 * (if Number_of_BigInt (getUint 8 buf off) \<le> getUint 8 buf off
                  then getUint 8 buf off - Number_of_BigInt (getUint 8 buf off)
                  else Number_of_BigInt (getUint 8 buf off) - getUint 8 buf off)
             \<le> 2 ^ (bit_length (getUint 8 buf off) - 53)"
proof -
  define lo where "lo = getUint 4 buf off"
  define hi where "hi = getUint 4 buf (off + 4)"
  have lo: "lo < 2 ^ 32" using getUint_bound[of 4 buf off] by (simp add: lo_def)
  have v: "getUint 8 buf off = lo + 2 ^ 32 * hi"
    using getUint_split[OF assms] by (simp add: lo_def hi_def)
  have 1: "readUint64 buf off = Inr (Number_of_BigInt (getUint 8 buf off), off + 8)"
  proof (cases "hi = 0")
    case True
    then have "getUint 8 buf off = lo" by (simp add: v)
    moreover have "Number_of_BigInt lo = lo" using lo by (simp add: Number_of_BigInt_def)
    moreover have "readUint64 buf off = Inr (lo, off + 8)"
      using assms True by (simp add: readUint64_def lo_def hi_def)
    ultimately show ?thesis by simp
  next
    case False
    then have "readUint64 buf off = Inr (Number_of_BigInt (push_bit 32 hi OR lo), off + 8)"
      using assms by (simp add: readUint64_def lo_def hi_def)
    then show ?thesis using push_bit_or_add[OF lo, of hi] by (simp add: v add.commute mult.commute)
  qed
  have 2: "getUint 8 buf off \<le> 2 ^ 53 \<longrightarrow> readUint64 buf off = Inr (getUint 8 buf off, off + 8)"
    using 1 by (simp add: Number_of_BigInt_exact)
  from 1 2 Number_of_BigInt_near[of "getUint 8 buf off"] show ?thesis by blast
qed

theorem readUint64_rounds_witness:
  "0 + 8 \<le> length [5, 0, 0, 0, 0, 0, 0, 0 :: byte]
   \<and> readUint64 [5, 0, 0, 0, 0, 0, 0, 0] 0 = Inr (5, 8)"
proof -
  have v: "getUint 8 [5, 0, 0, 0, 0, 0, 0, 0] 0 = 5" by (simp add: getUint_def)
  have "0 + 8 \<le> length [5, 0, 0, 0, 0, 0, 0, 0 :: byte]" by simp
  from readUint64_rounds[OF this]
  have "getUint 8 [5, 0, 0, 0, 0, 0, 0, 0] 0 \<le> 2 ^ 53
        \<longrightarrow> readUint64 [5, 0, 0, 0, 0, 0, 0, 0] 0 = Inr (getUint 8 [5, 0, 0, 0, 0, 0, 0, 0] 0, 0 + 8)"
    by blast
  then show ?thesis unfolding v by simp
qed

text \<open>
  C1 as stated fails: the eight bytes below hold \<open>2 ^ 53 + 1\<close>, and the read returns
  \<open>2 ^ 53\<close>.
\<close>

theorem readUint64_lossless_counterexample:
  "getUint 8 [1, 0, 0, 0, 0, 0, 0x20, 0] 0 = 9007199254740993
   \<and> readUint64 [1, 0, 0, 0, 0, 0, 0x20, 0] 0 = Inr (9007199254740992, 8)"
proof -
  have "bit_length 9007199254740993 = 54"
    using bit_length_eqI[of 53 9007199254740993] by simp
  then show ?thesis
    by (simp add: readUint64_def getUint_def Number_of_BigInt_def)
qed

subsection \<open>Half floats\<close>

text \<open>
  C8. The half-float decode maps the bit pattern 0x3C00 to exactly 1.0, 0xC000 to
  exactly -2.0, 0x7C00 to positive infinity and 0x0000 to (positive) 0.0.
\<close>

theorem f16ToF32_known_patterns:
  "f16ToF32 0x3C00 = Fin 1 \<and> f16ToF32 0xC000 = Fin (- 2)
   \<and> f16ToF32 0x7C00 = PosInf \<and> f16ToF32 0x0000 = Fin 0"
  by (simp add: f16ToF32_def)



subsection \<open>The header parser\<close>

lemma read_many_mono:
  assumes "\<And>p v p'. rd p = Inr (v, p') \<Longrightarrow> p \<le> p'"
  shows "read_many rd n off = Inr (vs, off') \<Longrightarrow> off \<le> off'"
proof (induction n arbitrary: off vs)
  case 0
  then show ?case by simp
next
  case (Suc n)
  from Suc.prems obtain v p vs' where a: "rd off = Inr (v, p)"
    and b: "read_many rd n p = Inr (vs', off')"
    by (auto simp: bnd_def split: sum.splits)
  from assms[OF a] Suc.IH[OF b] show ?case by simp
qed

lemma scalar_reads_mono:
  "readUint8 buf off = Inr (a, p) \<Longrightarrow> off \<le> p"
  "readInt8 buf off = Inr (b, p) \<Longrightarrow> off \<le> p"
  "readUint16 buf off = Inr (a, p) \<Longrightarrow> off \<le> p"
  "readInt16 buf off = Inr (b, p) \<Longrightarrow> off \<le> p"
  "readUint32 buf off = Inr (a, p) \<Longrightarrow> off \<le> p"
  "readInt32 buf off = Inr (b, p) \<Longrightarrow> off \<le> p"
  "readUint64 buf off = Inr (a, p) \<Longrightarrow> off \<le> p"
  "readInt64 buf off = Inr (b, p) \<Longrightarrow> off \<le> p"
  "readFloat32 buf off = Inr (x, p) \<Longrightarrow> off \<le> p"
  "readFloat64 buf off = Inr (x, p) \<Longrightarrow> off \<le> p"
  "readBool buf off = Inr (c, p) \<Longrightarrow> off \<le> p"
  by (auto simp: readUint8_def readInt8_def readUint16_def readInt16_def readUint32_def
        readInt32_def readUint64_def readInt64_def readFloat32_def readFloat64_def
        readBool_def bnd_def Let_def split: if_splits sum.splits)

lemma readString_mono: "readString buf off = Inr (s, p) \<Longrightarrow> off \<le> p"
  by (auto simp: readString_def bnd_def split: sum.splits if_splits dest!: scalar_reads_mono(7))

lemma readValue_mono: "readValue d buf ty off = Inr (v, p) \<Longrightarrow> off \<le> p"
proof (induction d arbitrary: ty off v p)
  case 0
  then show ?case by simp
next
  case (Suc d)
  show ?case
  proof (cases "ty = 9")
    case False
    with Suc.prems show ?thesis
      by (auto simp: bnd_def split: if_splits sum.splits
            dest: scalar_reads_mono readString_mono)
  next
    case True
    with Suc.prems obtain arrType p1 arrLen p2 arr where
      a: "readUint32 buf off = Inr (arrType, p1)" and b: "readUint64 buf p1 = Inr (arrLen, p2)"
      and c: "read_many (readValue d buf arrType) arrLen p2 = Inr (arr, p)"
      by (auto simp: bnd_def split: sum.splits)
    have "p2 \<le> p" using read_many_mono[OF _ c] Suc.IH by blast
    with scalar_reads_mono(5)[OF a] scalar_reads_mono(7)[OF b] show ?thesis by simp
  qed
qed

lemma read_many_no_error:
  assumes "\<And>p v p'. rd p = Inr (v, p') \<Longrightarrow> p \<le> p'"
    and "\<And>p. off \<le> p \<Longrightarrow> rd p \<noteq> Inl e"
  shows "read_many rd n off \<noteq> Inl e"
  using assms(2)
proof (induction n arbitrary: off)
  case 0
  then show ?case by simp
next
  case (Suc n)
  show ?case
  proof (cases "rd off")
    case (Inl e')
    with Suc.prems[of off] show ?thesis by (simp add: bnd_def)
  next
    case (Inr vp)
    obtain v p where vp: "vp = (v, p)" by (cases vp)
    from assms(1) Inr vp have "off \<le> p" by simp
    then have "read_many rd n p \<noteq> Inl e" using Suc.prems by (intro Suc.IH) simp
    then show ?thesis using Inr vp by (auto simp: bnd_def split: sum.splits)
  qed
qed

lemma readValue_depth:
  "length buf - off < 12 * d \<Longrightarrow> readValue d buf ty off \<noteq> Inl CallStackExceeded"
proof (induction d arbitrary: ty off)
  case 0
  then show ?case by simp
next
  case (Suc d)
  show ?case
  proof (cases "ty = 9")
    case False
    then show ?thesis
      by (auto simp: bnd_def readUint8_def readInt8_def readUint16_def readInt16_def
            readUint32_def readInt32_def readUint64_def readInt64_def readFloat32_def
            readFloat64_def readBool_def readString_def Let_def split: sum.splits if_splits)
  next
    case True
    show ?thesis
    proof (cases "off + 12 \<le> length buf")
      case False
      then show ?thesis using True
        by (auto simp: bnd_def readUint32_def readUint64_def Let_def split: sum.splits if_splits)
    next
      case le: True
      obtain arrType where a: "readUint32 buf off = Inr (arrType, off + 4)"
        using le by (simp add: readUint32_def)
      have "\<exists>arrLen. readUint64 buf (off + 4) = Inr (arrLen, off + 12)"
        using le by (auto simp: readUint64_def Let_def)
      then obtain arrLen where b: "readUint64 buf (off + 4) = Inr (arrLen, off + 12)" ..
      have "read_many (readValue d buf arrType) arrLen (off + 12) \<noteq> Inl CallStackExceeded"
      proof (rule read_many_no_error)
        show "\<And>p v p'. readValue d buf arrType p = Inr (v, p') \<Longrightarrow> p \<le> p'"
          by (rule readValue_mono)
        show "\<And>p. off + 12 \<le> p \<Longrightarrow> readValue d buf arrType p \<noteq> Inl CallStackExceeded"
          using Suc.prems le by (intro Suc.IH) simp
      qed
      then show ?thesis using True a b
        by (auto simp: bnd_def split: sum.splits)
    qed
  qed
qed


text \<open>The depth bound that \<open>readMetadata\<close> passes is never reached.\<close>

lemma readValue_depth_buffer:
  "readValue (Suc (length buf)) buf ty off \<noteq> Inl CallStackExceeded"
  by (rule readValue_depth) simp

lemma align_up:
  "nat \<lceil>real h / real ALIGNMENT\<rceil> * ALIGNMENT = ((h + 31) div 32) * 32"
proof -
  have "\<lceil>real h / 32\<rceil> = \<lceil>real_of_int (int h) / real_of_int 32\<rceil>" by simp
  also have "\<dots> = - (- int h div 32)" by (rule ceiling_divide_eq_div)
  also have "\<dots> = (int h + 31) div 32" by linarith
  finally have "nat \<lceil>real h / 32\<rceil> = nat ((int h + 31) div 32)" by simp
  also have "\<dots> = (h + 31) div 32" by (simp add: nat_div_distrib nat_add_distrib)
  finally show ?thesis by (simp add: ALIGNMENT_def)
qed

text \<open>
  C7. Whenever header parsing succeeds, the returned data-section offset is the
  smallest multiple of 32 at or after \<open>headerEnd\<close>, the position of the cursor after
  the last tensor-info entry: it is divisible by 32, at least \<open>headerEnd\<close>, and no
  greater than any other such multiple.
\<close>

theorem tensorDataOffset_aligned:
  assumes "parseHeader file readSize = Inr res"
  shows "\<exists>ver tc md ts headerEnd.
           parseEntries (take readSize file) = Inr (ver, tc, md, ts, headerEnd)
           \<and> 32 dvd tensorDataOffset res
           \<and> headerEnd \<le> tensorDataOffset res
           \<and> (\<forall>m. 32 dvd m \<and> headerEnd \<le> m \<longrightarrow> tensorDataOffset res \<le> m)"
proof -
  from assms obtain ver tc md ts headerEnd where
    pe: "parseEntries (take readSize file) = Inr (ver, tc, md, ts, headerEnd)"
    and res: "tensorDataOffset res = nat \<lceil>real headerEnd / real ALIGNMENT\<rceil> * ALIGNMENT"
    by (auto simp: parseHeader_def bnd_def split: sum.splits)
  have t: "tensorDataOffset res = ((headerEnd + 31) div 32) * 32"
    by (simp add: res align_up)
  have 1: "32 dvd tensorDataOffset res" by (simp add: t)
  have 2: "headerEnd \<le> tensorDataOffset res" unfolding t by presburger
  have 3: "\<forall>m. 32 dvd m \<and> headerEnd \<le> m \<longrightarrow> tensorDataOffset res \<le> m"
  proof (intro allI impI)
    fix m assume m: "32 dvd m \<and> headerEnd \<le> m"
    then obtain k where k: "m = 32 * k" by (auto elim: dvdE)
    from m have "(headerEnd + 31) div 32 \<le> (m + 31) div 32"
      by (intro div_le_mono) simp
    also have "\<dots> = k" by (simp add: k)
    finally show "tensorDataOffset res \<le> m" by (simp add: t k)
  qed
  from pe 1 2 3 show ?thesis by blast
qed

lemma char_of_97: "char_of (97::nat) = CHR ''a''"
  by code_simp

lemma parseEntries_hdr0:
  "parseEntries (take 41 hdr0) = Inr (3, 0, [''a'' \<mapsto> VNum (num 7)], [], 41)"
  by (simp add: parseEntries_def hdr0_def bnd_def readUint32_def readUint64_def getUint_def
        readString_def TextDecoder_decode_def char_of_97 setProperty_def)

theorem tensorDataOffset_aligned_witness:
  "\<exists>res. parseHeader hdr0 41 = Inr res \<and> tensorDataOffset res = 64
         \<and> parseEntries (take 41 hdr0) = Inr (3, 0, [''a'' \<mapsto> VNum (num 7)], [], 41)"
proof -
  obtain res where res: "parseHeader hdr0 41 = Inr res"
    by (simp add: parseHeader_def parseEntries_hdr0 bnd_def)
  from tensorDataOffset_aligned[OF res] parseEntries_hdr0
  have a: "32 dvd tensorDataOffset res" and b: "41 \<le> tensorDataOffset res"
    and c: "\<forall>m. 32 dvd m \<and> 41 \<le> m \<longrightarrow> tensorDataOffset res \<le> m"
    by auto
  from c have "tensorDataOffset res \<le> 64" by simp
  with a b have "tensorDataOffset res = 64" by presburger
  with res parseEntries_hdr0 show ?thesis by blast
qed


subsection \<open>The retry loop\<close>

lemma retry_trace:
  assumes "0 < rs \<or> length file = 0" and "rs \<le> length file"
  shows "\<exists>sizes res. retry file rs tried = Some (tried @ sizes, res)
           \<and> sizes \<noteq> [] \<and> hd sizes = rs
           \<and> (\<forall>i. Suc i < length sizes \<longrightarrow>
                  parseHeader file (sizes ! i) = Inl BUFFER_TOO_SMALL
                  \<and> sizes ! i < length file
                  \<and> sizes ! Suc i = min (length file) (sizes ! i * 4))
           \<and> res = parseHeader file (last sizes)
           \<and> (res = Inl BUFFER_TOO_SMALL \<longrightarrow> last sizes = length file)"
  using assms
proof (induction "length file - rs" arbitrary: rs tried rule: less_induct)
  case less
  show ?case
  proof (cases "parseHeader file rs = Inl BUFFER_TOO_SMALL \<and> rs < length file")
    case False
    then have "retry file rs tried = Some (tried @ [rs], parseHeader file rs)"
      by (subst retry.simps) (auto split: sum.splits)
    moreover have "parseHeader file rs = Inl BUFFER_TOO_SMALL \<longrightarrow> rs = length file"
      using False less.prems by auto
    ultimately show ?thesis
      by (intro exI[of _ "[rs]"] exI[of _ "parseHeader file rs"]) simp
  next
    case True
    define rs' where "rs' = min (length file) (rs * 4)"
    from True less.prems have pos: "0 < rs" by auto
    then have gt: "rs < rs'" using True by (simp add: rs'_def)
    have le: "rs' \<le> length file" by (simp add: rs'_def)
    from gt le have dec: "length file - rs' < length file - rs" by simp
    have pos': "0 < rs' \<or> length file = 0" using gt by simp
    from less.hyps[OF dec pos' le, of "tried @ [rs]"] obtain sizes res where
      r: "retry file rs' (tried @ [rs]) = Some ((tried @ [rs]) @ sizes, res)"
      and ne: "sizes \<noteq> []" and hd: "hd sizes = rs'"
      and st: "\<forall>i. Suc i < length sizes \<longrightarrow>
                  parseHeader file (sizes ! i) = Inl BUFFER_TOO_SMALL
                  \<and> sizes ! i < length file
                  \<and> sizes ! Suc i = min (length file) (sizes ! i * 4)"
      and res: "res = parseHeader file (last sizes)"
      and fin: "res = Inl BUFFER_TOO_SMALL \<longrightarrow> last sizes = length file"
      by blast
    have "retry file rs tried = retry file rs' (tried @ [rs])"
      using True by (subst retry.simps) (simp add: rs'_def)
    with r have 1: "retry file rs tried = Some (tried @ (rs # sizes), res)" by simp
    have 2: "\<forall>i. Suc i < length (rs # sizes) \<longrightarrow>
                  parseHeader file ((rs # sizes) ! i) = Inl BUFFER_TOO_SMALL
                  \<and> (rs # sizes) ! i < length file
                  \<and> (rs # sizes) ! Suc i = min (length file) ((rs # sizes) ! i * 4)"
    proof (intro allI impI)
      fix i assume i: "Suc i < length (rs # sizes)"
      show "parseHeader file ((rs # sizes) ! i) = Inl BUFFER_TOO_SMALL
                  \<and> (rs # sizes) ! i < length file
                  \<and> (rs # sizes) ! Suc i = min (length file) ((rs # sizes) ! i * 4)"
      proof (cases i)
        case 0
        then show ?thesis using True hd ne by (simp add: rs'_def hd_conv_nth)
      next
        case (Suc j)
        then show ?thesis using st i by simp
      qed
    qed
    from 1 2 res fin ne show ?thesis
      by (intro exI[of _ "rs # sizes"] exI[of _ res]) simp
  qed
qed

lemma retry_stops:
  assumes "\<forall>i. Suc i < length sizes \<longrightarrow>
                  parseHeader file (sizes ! i) = Inl BUFFER_TOO_SMALL
                  \<and> sizes ! i < length file
                  \<and> sizes ! Suc i = min (length file) (sizes ! i * 4)"
  shows "\<forall>i<length sizes.
           (parseHeader file (sizes ! i) \<noteq> Inl BUFFER_TOO_SMALL \<or> sizes ! i = length file)
           \<longrightarrow> Suc i = length sizes"
proof (intro allI impI)
  fix i
  assume i: "i < length sizes"
    and h: "parseHeader file (sizes ! i) \<noteq> Inl BUFFER_TOO_SMALL \<or> sizes ! i = length file"
  show "Suc i = length sizes"
  proof (rule ccontr)
    assume "Suc i \<noteq> length sizes"
    with i have "Suc i < length sizes" by simp
    with assms have "parseHeader file (sizes ! i) = Inl BUFFER_TOO_SMALL"
      and "sizes ! i < length file" by blast+
    with h show False by simp
  qed
qed

text \<open>
  C6, as amended. \<open>parseGGUFHeader\<close> always returns. The first slice it reads has
  \<open>min (file size) (10 MiB)\<close> bytes; every attempt but the last failed for lack of
  data on a slice shorter than the file, and is followed by one on a slice four times as
  long, capped at the file length; the result is that of the last attempt. So an attempt
  that fails in any other way, or on a slice that is the whole file, is the last one:
  its failure is the result, with no further attempt.
\<close>

theorem parseGGUFHeader_slices:
  "\<exists>sizes res. parseGGUFHeader file = Some (sizes, res)
      \<and> sizes \<noteq> [] \<and> hd sizes = min (length file) (10 * 1024 * 1024)
      \<and> (\<forall>i. Suc i < length sizes \<longrightarrow>
             parseHeader file (sizes ! i) = Inl BUFFER_TOO_SMALL
             \<and> sizes ! i < length file
             \<and> sizes ! Suc i = min (length file) (sizes ! i * 4))
      \<and> res = parseHeader file (last sizes)
      \<and> (res = Inl BUFFER_TOO_SMALL \<longrightarrow> last sizes = length file)
      \<and> (\<forall>i<length sizes.
             (parseHeader file (sizes ! i) \<noteq> Inl BUFFER_TOO_SMALL \<or> sizes ! i = length file)
             \<longrightarrow> Suc i = length sizes)"
proof -
  have "0 < min (length file) (10 * 1024 * 1024) \<or> length file = 0" by auto
  from retry_trace[OF this, of "[]"] obtain sizes res where
    1: "parseGGUFHeader file = Some (sizes, res)"
    and 2: "sizes \<noteq> []" "hd sizes = min (length file) (10 * 1024 * 1024)"
    and 3: "\<forall>i. Suc i < length sizes \<longrightarrow>
             parseHeader file (sizes ! i) = Inl BUFFER_TOO_SMALL
             \<and> sizes ! i < length file
             \<and> sizes ! Suc i = min (length file) (sizes ! i * 4)"
    and 4: "res = parseHeader file (last sizes)"
      "res = Inl BUFFER_TOO_SMALL \<longrightarrow> last sizes = length file"
    by (auto simp: parseGGUFHeader_def)
  from 1 2 3 4 retry_stops[OF 3] show ?thesis by blast
qed

theorem parseGGUFHeader_slices_witness:
  "\<exists>res. parseGGUFHeader hdr0 = Some ([41], Inr res)"
proof -
  obtain r where r: "parseHeader hdr0 41 = Inr r"
    by (simp add: parseHeader_def parseEntries_hdr0 bnd_def)
  have len: "length hdr0 = 41" by (simp add: hdr0_def)
  from parseGGUFHeader_slices[of hdr0] obtain sizes res where
    p: "parseGGUFHeader hdr0 = Some (sizes, res)" and ne: "sizes \<noteq> []"
    and hd: "hd sizes = 41"
    and st: "\<forall>i. Suc i < length sizes \<longrightarrow>
             parseHeader hdr0 (sizes ! i) = Inl BUFFER_TOO_SMALL
             \<and> sizes ! Suc i = min (length hdr0) (sizes ! i * 4)"
    and res: "res = parseHeader hdr0 (last sizes)"
    by (auto simp: len)
  have "length sizes = 1"
  proof (rule ccontr)
    assume "length sizes \<noteq> 1"
    with ne have "Suc 0 < length sizes" by (cases sizes) auto
    with st have "parseHeader hdr0 (sizes ! 0) = Inl BUFFER_TOO_SMALL" by blast
    moreover have "sizes ! 0 = 41" using hd ne by (simp add: hd_conv_nth)
    ultimately show False using r by simp
  qed
  with hd have "sizes = [41]" by (cases sizes) auto
  with p res r show ?thesis by simp
qed

text \<open>
  C6 as stated fails on a truncated file: the three bytes below are all of the file,
  the only attempt fails for lack of data, and no retry follows.
\<close>

theorem parseGGUFHeader_retry_counterexample:
  "parseHeader [0x47, 0x47, 0x55] 3 = Inl BUFFER_TOO_SMALL
   \<and> parseGGUFHeader [0x47, 0x47, 0x55] = Some ([3], Inl BUFFER_TOO_SMALL)"
proof -
  have 1: "parseHeader [0x47, 0x47, 0x55] 3 = Inl BUFFER_TOO_SMALL"
    by (simp add: parseHeader_def parseEntries_def bnd_def readUint32_def)
  have "length [0x47, 0x47, 0x55 :: byte] = 3" by simp
  then have "parseGGUFHeader [0x47, 0x47, 0x55] = retry [0x47, 0x47, 0x55] 3 []"
    by (simp only: parseGGUFHeader_def) simp
  also have "\<dots> = Some ([3], Inl BUFFER_TOO_SMALL)"
    by (subst retry.simps) (simp add: 1)
  finally show ?thesis using 1 by simp
qed




subsection \<open>The architecture extractor\<close>

lemma or0_Some: "or0 (Some v) = (if truthy (Some v) then v else VNum (Fin 0))"
  by (simp add: or0_def js_or_def)

lemma or0_None: "or0 None = VNum (Fin 0)"
  by (simp add: or0_def js_or_def truthy_def num_truthy_def is_zero_def)

lemma field_get:
  assumes "(key, sel) \<in> set plain_fields"
  shows "sel (extractArchInfo h md) = or0 (get h md (architecture (extractArchInfo h md)) key)"
  using assms by (auto simp: plain_fields_def extractArchInfo_def Let_def)

text \<open>
  C2, as amended. For every metadata table and every field that the extractor resolves
  by key alone, the bare global key is looked up first and the architecture-namespaced
  key \<open>"<architecture>.<field>"\<close> only when the bare key is absent; the value found
  is kept when it is truthy; a field absent under both keys is zero.
\<close>

theorem extractArchInfo_lookup_order:
  assumes "(key, sel) \<in> set plain_fields"
  shows "(case md key of
            Some v \<Rightarrow> sel (extractArchInfo h md) = (if truthy (Some v) then v else VNum (Fin 0))
          | None \<Rightarrow>
             (case md (namespaced h md key) of
                Some v \<Rightarrow> sel (extractArchInfo h md) = (if truthy (Some v) then v else VNum (Fin 0))
              | None \<Rightarrow> sel (extractArchInfo h md) = VNum (Fin 0)))"
  using field_get[OF assms, of h md]
  by (auto simp: get_def js_nullish_def namespaced_def or0_Some or0_None split: option.splits)

lemma arch_heads: "architecture (extractArchInfo host0 md_heads) = VStr ''llama''"
  by (simp add: extractArchInfo_def Let_def md_heads_def js_or_def truthy_def)

lemma namespaced_heads: "namespaced host0 md_heads k = ''llama.'' @ k"
  by (simp add: namespaced_def arch_heads template_def)

theorem extractArchInfo_lookup_order_witness:
  "blockCount (extractArchInfo host0 md_both) = VNum (num 5)
   \<and> headCount (extractArchInfo host0 md_heads) = VNum (num 32)
   \<and> contextLength (extractArchInfo host0 md_heads) = VNum (Fin 0)"
proof -
  have m1: "(''block_count'', blockCount) \<in> set plain_fields"
    and m2: "(''attention.head_count'', headCount) \<in> set plain_fields"
    and m3: "(''context_length'', contextLength) \<in> set plain_fields"
    by (simp_all add: plain_fields_def)
  have l1: "md_both ''block_count'' = Some (VNum (num 5))" by (simp add: md_both_def)
  have l2: "md_heads ''attention.head_count'' = None"
    and l3: "md_heads ''llama.attention.head_count'' = Some (VNum (num 32))"
    and l4: "md_heads ''context_length'' = None"
    and l5: "md_heads ''llama.context_length'' = None"
    by (simp_all add: md_heads_def)
  have t: "truthy (Some (VNum (num 5)))" "truthy (Some (VNum (num 32)))"
    by (simp_all add: truthy_def num_truthy_def is_zero_def)
  have 1: "blockCount (extractArchInfo host0 md_both) = VNum (num 5)"
    using extractArchInfo_lookup_order[OF m1, where md=md_both and h=host0]
    unfolding l1 using t by simp
  have 2: "headCount (extractArchInfo host0 md_heads) = VNum (num 32)"
    using extractArchInfo_lookup_order[OF m2, where md=md_heads and h=host0]
    unfolding namespaced_heads l2 using t l3 by simp
  have 3: "contextLength (extractArchInfo host0 md_heads) = VNum (Fin 0)"
    using extractArchInfo_lookup_order[OF m3, where md=md_heads and h=host0]
    unfolding namespaced_heads l4 using l5 by simp
  from 1 2 3 show ?thesis by simp
qed

text \<open>
  C2 as stated fails: with both keys present the bare value 5 is used, not the
  namespaced 32; and the key/value head count, absent under both keys, is 32 and not
  zero.
\<close>

theorem extractArchInfo_namespaced_first_counterexample:
  "md_both ''llama.block_count'' = Some (VNum (num 32))
   \<and> md_both ''block_count'' = Some (VNum (num 5))
   \<and> architecture (extractArchInfo host0 md_both) = VStr ''llama''
   \<and> blockCount (extractArchInfo host0 md_both) = VNum (num 5)
   \<and> md_heads ''attention.head_count_kv'' = None
   \<and> md_heads ''llama.attention.head_count_kv'' = None
   \<and> headCountKV (extractArchInfo host0 md_heads) = VNum (num 32)"
  by (simp add: extractArchInfo_def Let_def md_both_def md_heads_def js_or_def truthy_def get_def
        js_nullish_def or0_def num_truthy_def is_zero_def template_def)

lemma str_less_irrefl: "\<not> str_less s s"
  unfolding str_less_def List.lexordp_def by (rule lexord_irreflexive) simp

lemma js_lt_irrefl: "\<not> js_lt x x"
  by (simp add: js_lt_def)

lemma js_less_irrefl: "\<not> js_less h a a"
  by (auto simp: js_less_def str_less_irrefl js_lt_irrefl split: option.splits jsval.splits)

text \<open>
  C10. When the metadata has no key/value head count under either key form, the
  extractor sets the key/value head count to the attention head count, and the derived
  flag \<open>isGQA\<close> is false.
\<close>

theorem headCountKV_defaults_to_headCount:
  assumes "md ''attention.head_count_kv'' = None"
    and "md (namespaced h md ''attention.head_count_kv'') = None"
  shows "headCountKV (extractArchInfo h md) = headCount (extractArchInfo h md)
         \<and> \<not> isGQA (extractArchInfo h md)"
proof -
  define arch where "arch = architecture (extractArchInfo h md)"
  have g: "get h md arch ''attention.head_count_kv'' = None"
    using assms by (simp add: get_def js_nullish_def namespaced_def arch_def)
  have kv: "headCountKV (extractArchInfo h md)
             = or0 (js_or (get h md arch ''attention.head_count_kv'') (get h md arch ''attention.head_count''))"
    by (simp add: extractArchInfo_def Let_def arch_def)
  have hc: "headCount (extractArchInfo h md) = or0 (get h md arch ''attention.head_count'')"
    by (simp add: extractArchInfo_def Let_def arch_def)
  have eq: "headCountKV (extractArchInfo h md) = headCount (extractArchInfo h md)"
    by (simp add: kv hc g js_or_def truthy_def)
  have "isGQA (extractArchInfo h md)
         = (js_less h (Some (VNum (Fin 0))) (Some (headCountKV (extractArchInfo h md)))
            \<and> js_less h (Some (headCountKV (extractArchInfo h md))) (Some (headCount (extractArchInfo h md))))"
    by (simp add: extractArchInfo_def Let_def)
  then have "\<not> isGQA (extractArchInfo h md)"
    by (simp add: eq js_less_irrefl)
  with eq show ?thesis by simp
qed

theorem headCountKV_defaults_to_headCount_witness:
  "md_heads ''attention.head_count_kv'' = None
   \<and> md_heads (namespaced host0 md_heads ''attention.head_count_kv'') = None
   \<and> headCountKV (extractArchInfo host0 md_heads) = VNum (num 32)
   \<and> headCount (extractArchInfo host0 md_heads) = VNum (num 32)
   \<and> \<not> isGQA (extractArchInfo host0 md_heads)"
proof -
  have 1: "md_heads ''attention.head_count_kv'' = None" by (simp add: md_heads_def)
  have "md_heads ''llama.attention.head_count_kv'' = None" by (simp add: md_heads_def)
  then have 2: "md_heads (namespaced host0 md_heads ''attention.head_count_kv'') = None"
    unfolding namespaced_heads by simp
  have 3: "headCount (extractArchInfo host0 md_heads) = VNum (num 32)"
    by (simp add: extractArchInfo_def Let_def md_heads_def js_or_def truthy_def get_def
        js_nullish_def or0_def num_truthy_def is_zero_def template_def)
  from headCountKV_defaults_to_headCount[OF 1 2] 1 2 3 show ?thesis by simp
qed

subsection \<open>Rounding\<close>

lemma rne_of_int: "rne (of_int n) = n"
  by (simp add: rne_def)

lemma rne_error: "\<bar>of_int (rne y) - y\<bar> \<le> 1 / 2"
proof -
  have "of_int \<lfloor>y\<rfloor> \<le> y" "y < of_int \<lfloor>y\<rfloor> + 1" by linarith+
  then show ?thesis by (auto simp: rne_def Let_def)
qed

lemma binade:
  assumes "x \<noteq> 0"
  shows "2 powi \<lfloor>log 2 \<bar>x\<bar>\<rfloor> \<le> \<bar>x\<bar>" and "\<bar>x\<bar> < 2 powi (\<lfloor>log 2 \<bar>x\<bar>\<rfloor> + 1)"
proof -
  define e where "e = \<lfloor>log 2 \<bar>x\<bar>\<rfloor>"
  have pos: "0 < \<bar>x\<bar>" using assms by simp
  have "of_int e \<le> log 2 \<bar>x\<bar>" by (simp add: e_def)
  then have "2 powr (of_int e) \<le> \<bar>x\<bar>" using pos by (simp add: le_log_iff)
  then show "2 powi \<lfloor>log 2 \<bar>x\<bar>\<rfloor> \<le> \<bar>x\<bar>"
    by (simp add: powr_real_of_int' e_def)
  have "log 2 \<bar>x\<bar> < of_int (e + 1)" unfolding e_def by linarith
  then have "\<bar>x\<bar> < 2 powr (of_int (e + 1))" using pos by (simp add: log_less_iff)
  then show "\<bar>x\<bar> < 2 powi (\<lfloor>log 2 \<bar>x\<bar>\<rfloor> + 1)"
    unfolding e_def by (subst (asm) powr_real_of_int') simp_all
qed

lemma fl_gen_exact:
  assumes x: "x = of_int m * 2 powi k" and m: "\<bar>m\<bar> < 2 ^ p" and k: "emin - int p + 1 \<le> k"
  shows "fl_gen p emin x = x"
proof (cases "x = 0")
  case True
  then show ?thesis by (simp add: fl_gen_def)
next
  case False
  define e where "e = max \<lfloor>log 2 \<bar>x\<bar>\<rfloor> emin"
  define j where "j = e - int p + 1"
  have m0: "m \<noteq> 0" using False x by auto
  have "\<bar>x\<bar> = of_int \<bar>m\<bar> * 2 powi k" by (simp add: x abs_mult)
  also have "\<dots> < 2 ^ p * 2 powi k"
  proof -
    have "(of_int \<bar>m\<bar> :: real) < of_int (2 ^ p)" using m by (simp only: of_int_less_iff)
    then show ?thesis by simp
  qed
  also have "\<dots> = 2 powi (int p + k)" by (simp add: power_int_add)
  finally have ub: "\<bar>x\<bar> < 2 powi (int p + k)" .
  have "2 powi \<lfloor>log 2 \<bar>x\<bar>\<rfloor> < (2::real) powi (int p + k)"
    using binade(1)[OF False] ub by linarith
  then have "\<lfloor>log 2 \<bar>x\<bar>\<rfloor> < int p + k"
    by (smt (verit) power_int_increasing)
  then have jk: "j \<le> k" using k by (simp add: j_def e_def)
  have "x / 2 powi j = of_int m * 2 powi (k - j)"
    by (simp add: x power_int_diff)
  also have "\<dots> = of_int (m * 2 ^ nat (k - j))"
    using jk by (simp add: power_int_def)
  finally have "x / 2 powi j = of_int (m * 2 ^ nat (k - j))" .
  then have "of_int (rne (x / 2 powi j)) = x / 2 powi j"
    by (simp only: rne_of_int)
  then have "of_int (rne (x / 2 powi j)) * 2 powi j = x"
    by simp
  then show ?thesis using False by (simp add: fl_gen_def Let_def e_def j_def)
qed

lemma fl_gen_error:
  assumes "2 powi emin \<le> \<bar>x\<bar>"
  shows "\<bar>fl_gen p emin x - x\<bar> \<le> \<bar>x\<bar> * 2 powi (- int p)"
proof -
  have x0: "x \<noteq> 0" using assms by (smt (verit) zero_less_power_int abs_zero)
  define e where "e = \<lfloor>log 2 \<bar>x\<bar>\<rfloor>"
  define u where "u = (2::real) powi (e - int p + 1)"
  have upos: "0 < u" by (simp add: u_def)
  have "2 powi emin \<le> \<bar>x\<bar>" by fact
  also have "\<bar>x\<bar> < 2 powi (e + 1)" using binade(2)[OF x0] by (simp add: e_def)
  finally have "emin < e + 1" by (smt (verit) power_int_increasing)
  then have me: "max e emin = e" by simp
  have f: "fl_gen p emin x = of_int (rne (x / u)) * u"
    using x0 by (simp add: fl_gen_def Let_def e_def[symmetric] me u_def)
  have "\<bar>of_int (rne (x / u)) * u - x\<bar> = \<bar>of_int (rne (x / u)) - x / u\<bar> * u"
  proof -
    have "of_int (rne (x / u)) * u - x = (of_int (rne (x / u)) - x / u) * u"
      using upos by (simp add: field_simps)
    then show ?thesis using upos by (simp add: abs_mult)
  qed
  also have "\<dots> \<le> (1 / 2) * u"
    using rne_error[of "x / u"] upos by (intro mult_right_mono) simp_all
  also have "\<dots> = 2 powi (e - int p)"
    by (simp add: u_def power_int_add)
  also have "\<dots> = 2 powi e * 2 powi (- int p)"
    by (simp add: power_int_diff power_int_minus field_simps)
  also have "\<dots> \<le> \<bar>x\<bar> * 2 powi (- int p)"
    using binade(1)[OF x0] by (intro mult_right_mono) (simp_all add: e_def)
  finally show ?thesis by (simp add: f)
qed

lemma fl_exact: "x = of_int m * 2 powi k \<Longrightarrow> \<bar>m\<bar> < 2 ^ 53 \<Longrightarrow> - 1074 \<le> k \<Longrightarrow> fl x = x"
  unfolding fl_def by (rule fl_gen_exact[where m=m and k=k]) simp_all

lemma fl_error: "least_normal \<le> \<bar>x\<bar> \<Longrightarrow> \<bar>fl x - x\<bar> \<le> \<bar>x\<bar> * eps"
  unfolding fl_def least_normal_def eps_def using fl_gen_error[of "- 1022" x 53]
  by (simp only: of_nat_numeral)

lemma least_normal_le: "2 powi (- 1000) \<le> x \<Longrightarrow> least_normal \<le> x"
proof -
  have "(2::real) powi (- 1022) \<le> 2 powi (- 1000)"
    by (rule power_int_increasing) simp_all
  then show "2 powi (- 1000) \<le> x \<Longrightarrow> least_normal \<le> x"
    unfolding least_normal_def by (rule order_trans)
qed

lemma least_normal_le_one: "least_normal \<le> 1"
proof -
  have "(2::real) powi (- 1022) \<le> 2 powi 0"
    by (rule power_int_increasing) simp_all
  then show ?thesis unfolding least_normal_def by (simp only: power_int_0_right)
qed

lemma eps_pos: "0 < eps"
  unfolding eps_def by (rule zero_less_power_int) simp

lemma eps_le: "eps \<le> 1 / 2 ^ 53"
  unfolding eps_def by (simp only: power_int_minus_divide power_int_numeral order_refl)

lemma fl_of_int: "\<bar>n\<bar> \<le> 2 ^ 53 \<Longrightarrow> fl (of_int n) = of_int n"
proof (cases "\<bar>n\<bar> < 2 ^ 53")
  case True
  then show ?thesis using fl_exact[of "of_int n" n 0] by simp
next
  case False
  assume "\<bar>n\<bar> \<le> 2 ^ 53"
  with False have "\<bar>n\<bar> = 2 ^ 53" by simp
  then have "n = 2 ^ 53 \<or> n = - (2 ^ 53)" by linarith
  then show ?thesis
  proof
    assume "n = 2 ^ 53"
    then show ?thesis using fl_exact[of "of_int n" 1 53] by simp
  next
    assume "n = - (2 ^ 53)"
    then show ?thesis using fl_exact[of "of_int n" "- 1" 53] by simp
  qed
qed

lemma fl_of_nat: "n \<le> 2 ^ 53 \<Longrightarrow> fl (real n) = real n"
  using fl_of_int[of "int n"] by simp

lemma fl_gen_half_ulp:
  assumes "x \<noteq> 0"
  shows "\<bar>fl_gen p emin x - x\<bar> \<le> 2 powi (max \<lfloor>log 2 \<bar>x\<bar>\<rfloor> emin - int p)"
proof -
  define u where "u = (2::real) powi (max \<lfloor>log 2 \<bar>x\<bar>\<rfloor> emin - int p + 1)"
  have upos: "0 < u" by (simp add: u_def)
  have f: "fl_gen p emin x = of_int (rne (x / u)) * u"
    using assms by (simp add: fl_gen_def Let_def u_def)
  have "of_int (rne (x / u)) * u - x = (of_int (rne (x / u)) - x / u) * u"
    using upos by (simp add: field_simps)
  then have "\<bar>of_int (rne (x / u)) * u - x\<bar> = \<bar>of_int (rne (x / u)) - x / u\<bar> * u"
    using upos by (simp add: abs_mult)
  also have "\<dots> \<le> (1 / 2) * u"
    using rne_error[of "x / u"] upos by (intro mult_right_mono) simp_all
  also have "\<dots> = 2 powi (max \<lfloor>log 2 \<bar>x\<bar>\<rfloor> emin - int p)"
    by (simp add: u_def power_int_add)
  finally show ?thesis by (simp add: f)
qed

lemma fl_bound: "\<bar>fl x\<bar> \<le> 2 * \<bar>x\<bar> + 1"
proof (cases "x = 0")
  case True
  then show ?thesis by (simp add: fl_def fl_gen_def)
next
  case False
  define e where "e = \<lfloor>log 2 \<bar>x\<bar>\<rfloor>"
  have h: "\<bar>fl x - x\<bar> \<le> 2 powi (max e (- 1022) - 53)"
    using fl_gen_half_ulp[OF False, of 53 "- 1022"] by (simp only: fl_def e_def of_nat_numeral)
  have "(2::real) powi (max e (- 1022) - 53) \<le> \<bar>x\<bar> + 1"
  proof (cases "e \<le> - 1022")
    case True
    have "(2::real) powi (max e (- 1022) - 53) \<le> 2 powi 0"
      using True by (intro power_int_increasing) simp_all
    then show ?thesis by simp
  next
    case False
    then have "max e (- 1022) - 53 = e - 53" by simp
    moreover have "(2::real) powi (e - 53) \<le> 2 powi e" by (intro power_int_increasing) simp_all
    moreover have "2 powi e \<le> \<bar>x\<bar>" using binade(1)[OF \<open>x \<noteq> 0\<close>] by (simp add: e_def)
    ultimately show ?thesis by simp
  qed
  with h show ?thesis by linarith
qed

lemma fl_zero: "fl 0 = 0"
  by (simp add: fl_def fl_gen_def)

lemma dbl_Fin: "fl r \<noteq> 0 \<Longrightarrow> \<bar>fl r\<bar> < dbl_overflow \<Longrightarrow> dbl s r = Fin (fl r)"
  by (auto simp: dbl_def Let_def)

lemma dbl_overflow_pos: "0 < dbl_overflow"
  unfolding dbl_overflow_def by (rule zero_less_power) simp

lemma dbl_zero: "dbl False 0 = Fin 0"
  using dbl_overflow_pos by (simp add: dbl_def fl_zero)

lemma overflow_gt: "x \<le> 2 ^ 1000 \<Longrightarrow> x < dbl_overflow"
proof -
  have "(2::real) ^ 1000 < 2 ^ 1024" by (rule power_strict_increasing) simp_all
  then show "x \<le> 2 ^ 1000 \<Longrightarrow> x < dbl_overflow"
    unfolding dbl_overflow_def by (rule order_le_less_trans[rotated])
qed

lemma pow2_le_1000: "n \<le> 1000 \<Longrightarrow> (2::real) ^ n \<le> 2 ^ 1000"
  by (rule power_increasing) simp_all

lemma real_nat_le_pow: "n \<le> 2 ^ k \<Longrightarrow> real n \<le> 2 ^ k"
  by (metis of_nat_le_iff of_nat_numeral of_nat_power)

lemma dbl_nat: "n \<le> 2 ^ 53 \<Longrightarrow> dbl False (real n) = num n"
proof (cases "n = 0")
  case True
  then show ?thesis by (simp add: dbl_zero)
next
  case False
  assume n: "n \<le> 2 ^ 53"
  have "real n \<le> 2 ^ 53" using n by (rule real_nat_le_pow)
  also have "(2::real) ^ 53 \<le> 2 ^ 1000" by (rule pow2_le_1000) simp
  finally have "\<bar>fl (real n)\<bar> < dbl_overflow"
    using fl_of_nat[OF n] overflow_gt[of "real n"] by simp
  then show ?thesis using False fl_of_nat[OF n] dbl_Fin[of "real n" False] by simp
qed

subsection \<open>Arithmetic on finite Numbers\<close>

lemma js_max_Fin: "js_max (Fin a) (Fin b) = Fin (max a b)"
  by (auto simp: js_max_def js_lt_def val_def is_neg_def)

lemma js_min_Fin: "js_min (Fin a) (Fin b) = Fin (min a b)"
  by (auto simp: js_min_def js_lt_def val_def is_neg_def)

lemma js_max_NegZero: "0 < a \<Longrightarrow> js_max (Fin a) NegZero = Fin a"
  by (auto simp: js_max_def js_lt_def val_def is_neg_def)

lemma js_floor_Fin: "js_floor (Fin r) = Fin (of_int \<lfloor>r\<rfloor>)"
  by (simp add: js_floor_def)

lemma js_sub_nat:
  assumes "s \<le> e" "e \<le> 2 ^ 53"
  shows "js_sub (num e) (num s) = num (e - s)"
proof -
  have d: "dbl False (real (e - s)) = num (e - s)" using assms by (intro dbl_nat) simp
  have r: "real e - real s = real (e - s)" using assms by (simp add: of_nat_diff)
  have nn: "\<not> real (e - s) < 0" by simp
  show ?thesis
  proof (cases "s = 0")
    case True
    then show ?thesis using d
      by (cases "e = 0")
        (simp_all add: js_sub_def js_neg_def js_add_def is_inf_def val_def is_neg_def)
  next
    case False
    then have "js_sub (num e) (num s)
        = dbl (if real e - real s = 0 then False else real e - real s < 0) (real e - real s)"
      by (simp add: js_sub_def js_neg_def js_add_def is_inf_def val_def is_neg_def Let_def)
    also have "\<dots> = dbl False (real (e - s))" unfolding r using nn by simp
    finally show ?thesis using d by simp
  qed
qed

lemma sqrt_nat_le: "sqrt (real m) \<le> real m" if "0 < m"
proof -
  have "1 \<le> real m" using that by simp
  then have "real m \<le> real m * real m" by (simp add: mult_le_cancel_left1)
  then have "sqrt (real m) \<le> sqrt (real m * real m)" by (simp only: real_sqrt_le_iff)
  then show ?thesis by simp
qed

lemma js_sqrt_nat:
  assumes "0 < m" "m \<le> 2 ^ 53"
  shows "js_sqrt (num m) = Fin (fl (sqrt (real m)))" and "0 < fl (sqrt (real m))"
    and "fl (sqrt (real m)) \<le> 2 ^ 54"
proof -
  have one: "1 \<le> sqrt (real m)" using assms by simp
  then have "least_normal \<le> \<bar>sqrt (real m)\<bar>" using least_normal_le_one by linarith
  from fl_error[OF this] have e: "\<bar>fl (sqrt (real m)) - sqrt (real m)\<bar> \<le> sqrt (real m) * eps"
    by simp
  have u: "eps \<le> 1 / 2" using eps_le by (rule order_trans) simp
  have "sqrt (real m) * eps \<le> sqrt (real m) * (1 / 2)"
    using u one by (intro mult_left_mono) simp_all
  with e have lo: "sqrt (real m) / 2 \<le> fl (sqrt (real m))"
    and hi: "fl (sqrt (real m)) \<le> 2 * sqrt (real m)" by linarith+
  show pos: "0 < fl (sqrt (real m))" using lo one by linarith
  have "real m \<le> 2 ^ 53" using assms(2) by (rule real_nat_le_pow)
  with sqrt_nat_le[OF assms(1)] hi show b: "fl (sqrt (real m)) \<le> 2 ^ 54" by simp
  have "(2::real) ^ 54 \<le> 2 ^ 1000" by (rule pow2_le_1000) simp
  with b have "fl (sqrt (real m)) \<le> 2 ^ 1000" by linarith
  then have "\<bar>fl (sqrt (real m))\<bar> < dbl_overflow" using pos overflow_gt by simp
  then show "js_sqrt (num m) = Fin (fl (sqrt (real m)))"
    using pos by (simp add: js_sqrt_def dbl_Fin)
qed

subsection \<open>The line count of the connection generator\<close>

lemma baseLine_closed:
  assumes "0 < s" "s \<le> 2 ^ 53" "0 < t" "t \<le> 2 ^ 53"
  shows "baseLine (num s) (num t)
           = Fin (of_int (min 100 (max 8 \<lfloor>fl (sqrt (real (min s t)))\<rfloor>)))"
proof -
  have m: "js_min (num s) (num t) = num (min s t)"
    by (simp add: js_min_Fin min_def)
  have m0: "0 < min s t" and m1: "min s t \<le> 2 ^ 53" using assms by auto
  have "js_max (num 8) (Fin (of_int \<lfloor>fl (sqrt (real (min s t)))\<rfloor>))
          = Fin (of_int (max 8 \<lfloor>fl (sqrt (real (min s t)))\<rfloor>))"
    by (simp add: js_max_Fin max_def)
  moreover have "js_min (num 100) (Fin (of_int (max 8 \<lfloor>fl (sqrt (real (min s t)))\<rfloor>)))
          = Fin (of_int (min 100 (max 8 \<lfloor>fl (sqrt (real (min s t)))\<rfloor>)))"
    by (simp add: js_min_Fin min_def)
  ultimately show ?thesis
    by (simp add: baseLine_def m js_sqrt_nat(1)[OF m0 m1] js_floor_Fin)
qed

lemma round_max_closed:
  assumes "\<bar>fl r\<bar> < dbl_overflow"
  shows "js_max (num 2) (js_round (dbl s r)) = Fin (of_int (max 2 \<lfloor>fl r + 1 / 2\<rfloor>))"
proof (cases "fl r = 0")
  case True
  then show ?thesis using dbl_overflow_pos
    by (cases s) (simp_all add: dbl_def js_round_def js_max_NegZero js_max_Fin)
next
  case False
  then have d: "dbl s r = Fin (fl r)" using assms by (simp add: dbl_Fin)
  show ?thesis
  proof (cases "- (1 / 2) \<le> fl r \<and> fl r < 0")
    case True
    then have "\<lfloor>fl r + 1 / 2\<rfloor> = 0" by linarith
    then show ?thesis using True by (simp add: d js_round_def js_max_NegZero)
  next
    case False
    then have "js_round (Fin (fl r)) = Fin (of_int \<lfloor>fl r + 1 / 2\<rfloor>)"
      by (auto simp: js_round_def)
    then show ?thesis by (simp add: d js_max_Fin max_def)
  qed
qed

lemma lineCount_closed:
  assumes "0 < s" "s \<le> 2 ^ 53" "0 < t" "t \<le> 2 ^ 53" "\<bar>d\<bar> \<le> 2 ^ 40"
  shows "lineCount (num s) (num t) (Fin d)
           = Fin (of_int (max 2 \<lfloor>fl (of_int (min 100 (max 8 \<lfloor>fl (sqrt (real (min s t)))\<rfloor>)) * d) + 1 / 2\<rfloor>))"
    and "\<bar>fl (of_int (min 100 (max 8 \<lfloor>fl (sqrt (real (min s t)))\<rfloor>)) * d)\<bar> \<le> 2 ^ 50"
proof -
  define b where "b = min 100 (max 8 \<lfloor>fl (sqrt (real (min s t)))\<rfloor>)"
  have b: "8 \<le> b" "b \<le> 100" by (simp_all add: b_def)
  have "\<bar>of_int b * d\<bar> = of_int b * \<bar>d\<bar>" using b by (simp add: abs_mult)
  also have "\<dots> \<le> 100 * 2 ^ 40"
    using b assms(5) by (intro mult_mono) simp_all
  finally have "2 * \<bar>of_int b * d\<bar> + 1 \<le> 2 ^ 50" by simp
  with fl_bound[of "of_int b * d"] show q: "\<bar>fl (of_int (min 100 (max 8 \<lfloor>fl (sqrt (real (min s t)))\<rfloor>)) * d)\<bar> \<le> 2 ^ 50"
    unfolding b_def by linarith
  have "(2::real) ^ 50 \<le> 2 ^ 1000" by (rule pow2_le_1000) simp
  with q have ov: "\<bar>fl (of_int b * d)\<bar> < dbl_overflow"
    unfolding b_def by (intro overflow_gt) linarith
  have "js_mul (Fin (of_int b)) (Fin d) = dbl (d < 0) (of_int b * d)"
    using b by (simp add: js_mul_def is_inf_def is_neg_def val_def)
  then show "lineCount (num s) (num t) (Fin d)
           = Fin (of_int (max 2 \<lfloor>fl (of_int (min 100 (max 8 \<lfloor>fl (sqrt (real (min s t)))\<rfloor>)) * d) + 1 / 2\<rfloor>))"
    using round_max_closed[OF ov, of "d < 0"]
    by (simp add: lineCount_def baseLine_closed[OF assms(1-4)] b_def)
qed

lemma lineLoop_lengths:
  "\<exists>outPos' outCol'. lineLoop rng src tgt pos dimFactor n (k, outPos, outCol)
        = (k + 2 * n, outPos', outCol')
      \<and> length outPos' = length outPos + 6 * n \<and> length outCol' = length outCol + 6 * n"
proof (induction n arbitrary: k outPos outCol)
  case 0
  then show ?case by simp
next
  case (Suc n)
  define srcCount where "srcCount = js_sub (num (endIdx src)) (num (startIdx src))"
  define tgtCount where "tgtCount = js_sub (num (endIdx tgt)) (num (startIdx tgt))"
  define p1 where "p1 = outPos
      @ vertex pos (js_add (num (startIdx src)) (js_floor (js_mul (rng k) srcCount)))
      @ vertex pos (js_add (num (startIdx tgt)) (js_floor (js_mul (rng (k + 1)) tgtCount)))"
  define c1 where "c1 = outCol @ dimmed (tensorColor (category (tr_cls src))) dimFactor
                   @ dimmed (tensorColor (category (tr_cls tgt))) dimFactor"
  have lp: "length p1 = length outPos + 6" by (simp add: p1_def vertex_def)
  have lc: "length c1 = length outCol + 6" by (simp add: c1_def dimmed_def split: prod.splits)
  have step: "lineLoop rng src tgt pos dimFactor (Suc n) (k, outPos, outCol)
        = lineLoop rng src tgt pos dimFactor n (k + 2, p1, c1)"
    by (simp add: Let_def p1_def c1_def srcCount_def tgtCount_def)
  from Suc.IH[of "k + 2" p1 c1] obtain p c where
    e: "lineLoop rng src tgt pos dimFactor n (k + 2, p1, c1) = (k + 2 + 2 * n, p, c)"
    and l1: "length p = length p1 + 6 * n" and l2: "length c = length c1 + 6 * n"
    by blast
  have "lineLoop rng src tgt pos dimFactor (Suc n) (k, outPos, outCol)
        = (k + 2 * Suc n, p, c)" by (simp only: step e) simp
  moreover have "length p = length outPos + 6 * Suc n" using l1 lp by simp
  moreover have "length c = length outCol + 6 * Suc n" using l2 lc by simp
  ultimately show ?case by blast
qed

lemma sampleLines_count:
  assumes "startIdx src < endIdx src" "endIdx src \<le> 2 ^ 53"
    and "startIdx tgt < endIdx tgt" "endIdx tgt \<le> 2 ^ 53"
    and "\<bar>d\<bar> \<le> 2 ^ 40"
  shows "\<exists>outPos' outCol'.
      sampleLines rng src tgt pos (Fin d) dimFactor (k, outPos, outCol)
        = Some (k + 2 * nat (max 2 \<lfloor>fl (of_int (min 100 (max 8
                  \<lfloor>fl (sqrt (real (min (endIdx src - startIdx src) (endIdx tgt - startIdx tgt))))\<rfloor>)) * d) + 1 / 2\<rfloor>),
                outPos', outCol')
      \<and> length outPos' = length outPos + 6 * nat (max 2 \<lfloor>fl (of_int (min 100 (max 8
                  \<lfloor>fl (sqrt (real (min (endIdx src - startIdx src) (endIdx tgt - startIdx tgt))))\<rfloor>)) * d) + 1 / 2\<rfloor>)
      \<and> length outCol' = length outCol + 6 * nat (max 2 \<lfloor>fl (of_int (min 100 (max 8
                  \<lfloor>fl (sqrt (real (min (endIdx src - startIdx src) (endIdx tgt - startIdx tgt))))\<rfloor>)) * d) + 1 / 2\<rfloor>)"
proof -
  define s where "s = endIdx src - startIdx src"
  define t where "t = endIdx tgt - startIdx tgt"
  define q where "q = fl (of_int (min 100 (max 8 \<lfloor>fl (sqrt (real (min s t)))\<rfloor>)) * d)"
  define N where "N = max 2 \<lfloor>q + 1 / 2\<rfloor>"
  have s: "0 < s" "s \<le> 2 ^ 53" and t: "0 < t" "t \<le> 2 ^ 53"
    using assms by (simp_all add: s_def t_def)
  have sc: "js_sub (num (endIdx src)) (num (startIdx src)) = num s"
    unfolding s_def using assms by (intro js_sub_nat) simp_all
  have tc: "js_sub (num (endIdx tgt)) (num (startIdx tgt)) = num t"
    unfolding t_def using assms by (intro js_sub_nat) simp_all
  have nz: "\<not> js_eq (num s) (Fin 0)" "\<not> js_eq (num t) (Fin 0)"
    using s t by (simp_all add: js_eq_def js_lt_def val_def)
  have lc: "lineCount (num s) (num t) (Fin d) = Fin (of_int N)"
    unfolding N_def q_def by (rule lineCount_closed(1)[OF s t assms(5)])
  have qb: "\<bar>q\<bar> \<le> 2 ^ 50"
    unfolding q_def by (rule lineCount_closed(2)[OF s t assms(5)])
  have "real_of_int \<lfloor>q + 1 / 2\<rfloor> \<le> q + 1 / 2" by (rule of_int_floor_le)
  with qb have "real_of_int \<lfloor>q + 1 / 2\<rfloor> \<le> 2 ^ 50 + 1" by linarith
  then have "real_of_int N \<le> 2 ^ 50 + 2" unfolding N_def max_def by simp
  then have "\<not> real_of_int N > 2 ^ 53" by simp
  then have it: "loop_iterations (Fin (of_int N)) = Some (nat N)"
    by (simp add: loop_iterations_def)
  have "sampleLines rng src tgt pos (Fin d) dimFactor (k, outPos, outCol)
          = Some (lineLoop rng src tgt pos dimFactor (nat N) (k, outPos, outCol))"
    using nz by (simp add: sampleLines_def sc tc lc it)
  moreover from lineLoop_lengths[of rng src tgt pos dimFactor "nat N" k outPos outCol]
  obtain p c where "lineLoop rng src tgt pos dimFactor (nat N) (k, outPos, outCol)
        = (k + 2 * nat N, p, c)"
    and "length p = length outPos + 6 * nat N" and "length c = length outCol + 6 * nat N"
    by blast
  ultimately have "\<exists>outPos' outCol'.
      sampleLines rng src tgt pos (Fin d) dimFactor (k, outPos, outCol)
        = Some (k + 2 * nat N, outPos', outCol')
      \<and> length outPos' = length outPos + 6 * nat N
      \<and> length outCol' = length outCol + 6 * nat N" by simp
  then show ?thesis unfolding N_def q_def s_def t_def .
qed

lemma sqrt_100: "sqrt 100 = 10"
  by (rule real_sqrt_unique) simp_all

lemma sqrt_72: "42 / 5 \<le> sqrt 72" "sqrt 72 < 17 / 2"
proof -
  show "42 / 5 \<le> sqrt 72" by (rule real_le_rsqrt) (simp add: power2_eq_square)
  show "sqrt 72 < 17 / 2" by (rule real_less_lsqrt) (simp_all add: power2_eq_square)
qed

lemma fl_sqrt_72: "\<lfloor>fl (sqrt 72)\<rfloor> = 8"
proof -
  have "least_normal \<le> \<bar>sqrt 72\<bar>" using least_normal_le_one sqrt_72(1) by linarith
  from fl_error[OF this] have "\<bar>fl (sqrt 72) - sqrt 72\<bar> \<le> sqrt 72 * eps" by simp
  moreover have "sqrt 72 * eps \<le> (17 / 2) * (1 / 2 ^ 53)"
    using sqrt_72 eps_le eps_pos by (intro mult_mono) simp_all
  ultimately have "\<bar>fl (sqrt 72) - sqrt 72\<bar> \<le> 1 / 10" by simp
  with sqrt_72 have "8 \<le> fl (sqrt 72)" "fl (sqrt 72) < 9" by linarith+
  then show ?thesis by linarith
qed

lemma count_100: "nat (max 2 \<lfloor>fl (of_int (min 100 (max 8
        \<lfloor>fl (sqrt (real (min (100 - 0) (100 - 0))))\<rfloor>)) * (1 / 8)) + 1 / 2\<rfloor>) = 2"
proof -
  have a: "fl 10 = 10" using fl_exact[of 10 10 0] by simp
  have b: "fl (5 / 4) = 5 / 4" using fl_exact[of "5 / 4" 5 "- 2"] by (simp add: power_int_minus)
  show ?thesis by (simp add: sqrt_100 a b)
qed

lemma count_72: "nat (max 2 \<lfloor>fl (of_int (min 100 (max 8
        \<lfloor>fl (sqrt (real (min (72 - 0) (72 - 0))))\<rfloor>)) * 2) + 1 / 2\<rfloor>) = 16"
proof -
  have b: "fl 16 = 16" using fl_exact[of 16 16 0] by simp
  show ?thesis by (simp add: fl_sqrt_72 b)
qed

text \<open>
  C5, as amended. For a source and a target region of \<open>s > 0\<close> and \<open>t > 0\<close> points (index
  ranges below \<open>2 ^ 53\<close>) and a density \<open>d\<close> of magnitude at most \<open>2 ^ 40\<close>,
  \<open>_sampleLines\<close> returns and emits exactly
  \<open>max(2, round(clamp(floor(sqrt(min(s, t))), 8, 100) * d))\<close> line segments, six position
  and six colour values each, drawing two random values a segment; the square root
  and the product are the rounded operations of the host.
\<close>

theorem sampleLines_segments:
  assumes "startIdx src < endIdx src" "endIdx src \<le> 2 ^ 53"
    and "startIdx tgt < endIdx tgt" "endIdx tgt \<le> 2 ^ 53"
    and "\<bar>d\<bar> \<le> 2 ^ 40"
  shows "\<exists>outPos' outCol'.
      sampleLines rng src tgt pos (Fin d) dimFactor (k, outPos, outCol)
        = Some (k + 2 * nat (max 2 \<lfloor>fl (of_int (min 100 (max 8
                  \<lfloor>fl (sqrt (real (min (endIdx src - startIdx src) (endIdx tgt - startIdx tgt))))\<rfloor>)) * d) + 1 / 2\<rfloor>),
                outPos', outCol')
      \<and> length outPos' = length outPos + 6 * nat (max 2 \<lfloor>fl (of_int (min 100 (max 8
                  \<lfloor>fl (sqrt (real (min (endIdx src - startIdx src) (endIdx tgt - startIdx tgt))))\<rfloor>)) * d) + 1 / 2\<rfloor>)
      \<and> length outCol' = length outCol + 6 * nat (max 2 \<lfloor>fl (of_int (min 100 (max 8
                  \<lfloor>fl (sqrt (real (min (endIdx src - startIdx src) (endIdx tgt - startIdx tgt))))\<rfloor>)) * d) + 1 / 2\<rfloor>)"
  using assms by (rule sampleLines_count)

theorem sampleLines_segments_witness:
  "\<exists>outPos' outCol'.
      sampleLines rng0 (reg 0 100) (reg 0 100) [] (Fin (1 / 8)) (Fin (1 / 2)) (0, [], [])
        = Some (4, outPos', outCol')
      \<and> length outPos' = 12 \<and> length outCol' = 12"
proof -
  have 1: "startIdx (reg 0 100) < endIdx (reg 0 100)" by (simp add: reg_def)
  have 2: "endIdx (reg 0 100) \<le> 2 ^ 53" by (simp add: reg_def)
  have 3: "\<bar>1 / 8 :: real\<bar> \<le> 2 ^ 40" by simp
  have e: "endIdx (reg 0 100) = 100" "startIdx (reg 0 100) = 0" by (simp_all add: reg_def)
  from sampleLines_segments[OF 1 2 1 2 3, of rng0 "[]" "Fin (1 / 2)" 0 "[]" "[]"]
  show ?thesis unfolding e count_100 by simp
qed

text \<open>
  C5 as stated fails: for two regions of 100 points and density 1/8 the stated formula
  gives 1 segment and the code emits 2; for two regions of 72 points and density 2 the
  stated formula gives 17 and the code emits 16.
\<close>

theorem sampleLines_formula_counterexample:
  "spec_lineCount 100 100 (1 / 8) = 1
   \<and> map_option (length \<circ> fst \<circ> snd)
        (sampleLines rng0 (reg 0 100) (reg 0 100) [] (Fin (1 / 8)) (Fin (1 / 2)) (0, [], [])) = Some (6 * 2)
   \<and> spec_lineCount 72 72 2 = 17
   \<and> map_option (length \<circ> fst \<circ> snd)
        (sampleLines rng0 (reg 0 72) (reg 0 72) [] (Fin 2) (Fin (1 / 2)) (0, [], [])) = Some (6 * 16)"
proof -
  have a: "spec_lineCount 100 100 (1 / 8) = 1"
    by (simp add: spec_lineCount_def sqrt_100)
  have "\<lfloor>sqrt 72 * 2 + 1 / 2\<rfloor> = 17" using sqrt_72 by linarith
  moreover have "min 100 (max 8 (sqrt 72)) = sqrt 72" using sqrt_72 by simp
  ultimately have b: "spec_lineCount 72 72 2 = 17"
    by (simp add: spec_lineCount_def)
  have r: "\<And>n. 0 < n \<Longrightarrow> n \<le> 100 \<Longrightarrow> startIdx (reg 0 n) < endIdx (reg 0 n) \<and> endIdx (reg 0 n) \<le> 2 ^ 53"
    by (simp add: reg_def)
  have e: "\<And>n. endIdx (reg 0 n) = n" "\<And>n. startIdx (reg 0 n) = 0" by (simp_all add: reg_def)
  have 3: "\<bar>1 / 8 :: real\<bar> \<le> 2 ^ 40" "\<bar>2 :: real\<bar> \<le> 2 ^ 40" by simp_all
  have c: "map_option (length \<circ> fst \<circ> snd)
        (sampleLines rng0 (reg 0 100) (reg 0 100) [] (Fin (1 / 8)) (Fin (1 / 2)) (0, [], [])) = Some (6 * 2)"
    using sampleLines_count[of "reg 0 100" "reg 0 100" "1 / 8" rng0 "[]" "Fin (1 / 2)" 0 "[]" "[]"] r[of 100] 3
    unfolding e count_100 by auto
  have d: "map_option (length \<circ> fst \<circ> snd)
        (sampleLines rng0 (reg 0 72) (reg 0 72) [] (Fin 2) (Fin (1 / 2)) (0, [], [])) = Some (6 * 16)"
    using sampleLines_count[of "reg 0 72" "reg 0 72" 2 rng0 "[]" "Fin (1 / 2)" 0 "[]" "[]"] r[of 72] 3
    unfolding e count_72 by auto
  from a b c d show ?thesis by blast
qed

subsection \<open>The point allocation\<close>

lemma js_add_nat: "a + b \<le> 2 ^ 53 \<Longrightarrow> js_add (num a) (num b) = num (a + b)"
proof -
  assume h: "a + b \<le> 2 ^ 53"
  have "js_add (num a) (num b) = dbl (if real a + real b = 0 then False else real a + real b < 0) (real a + real b)"
    by (simp add: js_add_def is_inf_def val_def is_neg_def Let_def)
  also have "\<dots> = dbl False (real (a + b))" by simp
  also have "\<dots> = num (a + b)" using h by (rule dbl_nat)
  finally show ?thesis .
qed

lemma foldl_js_add_nat:
  "acc + sum_list xs \<le> 2 ^ 53 \<Longrightarrow> foldl js_add (num acc) (map num xs) = num (acc + sum_list xs)"
proof (induction xs arbitrary: acc)
  case Nil
  then show ?case by simp
next
  case (Cons x xs)
  from Cons.prems have a: "acc + x \<le> 2 ^ 53" and b: "(acc + x) + sum_list xs \<le> 2 ^ 53" by simp_all
  show ?case using Cons.IH[OF b] by (simp add: js_add_nat[OF a] add.assoc)
qed

lemma allocTotal_nat: "sum_list xs \<le> 2 ^ 53 \<Longrightarrow> allocTotal (map num xs) = num (sum_list xs)"
  using foldl_js_add_nat[of 0 xs] by (simp add: allocTotal_def)

lemma totalParams_nat:
  assumes "map numElements ts = map num es" "sum_list es \<le> 2 ^ 53"
  shows "totalParams ts = num (sum_list es)"
proof -
  have "totalParams ts = foldl js_add (Fin 0) (map numElements ts)"
    by (simp add: totalParams_def foldl_map)
  then show ?thesis using foldl_js_add_nat[of 0 es] assms by simp
qed

text \<open>Rounding a positive real in the normal range.\<close>

lemma fl_pos_bounds:
  assumes "least_normal \<le> r"
  shows "r * (1 - eps) \<le> fl r" "fl r \<le> r * (1 + eps)" "0 < fl r"
proof -
  have lp: "0 < least_normal" unfolding least_normal_def by (rule zero_less_power_int) simp
  then have r: "0 < r" using assms by linarith
  have "least_normal \<le> \<bar>r\<bar>" using assms by simp
  from fl_error[OF this] have e: "\<bar>fl r - r\<bar> \<le> r * eps" using r by simp
  then show 1: "r * (1 - eps) \<le> fl r" and "fl r \<le> r * (1 + eps)"
    by (simp_all add: algebra_simps abs_le_iff)
  have "eps \<le> 1 / 2" using eps_le by (rule order_trans) simp
  then have "r * (1 / 2) \<le> r * (1 - eps)" using r by (intro mult_left_mono) simp_all
  moreover have "0 < r * (1 / 2)" using r by simp
  ultimately show "0 < fl r" using 1 by linarith
qed

lemma dbl_pos:
  assumes "least_normal \<le> r" "r \<le> 2 ^ 999"
  shows "dbl s r = Fin (fl r)"
proof -
  have lp: "0 < least_normal" unfolding least_normal_def by (rule zero_less_power_int) simp
  have "eps \<le> 1" using eps_le by (rule order_trans) simp
  then have "r * (1 + eps) \<le> r * 2" using assms lp by (intro mult_left_mono) simp_all
  with fl_pos_bounds(2)[OF assms(1)] assms(2) have "fl r \<le> 2 ^ 999 * 2" by linarith
  then have "fl r \<le> 2 ^ 1000" by simp
  then have "\<bar>fl r\<bar> < dbl_overflow" using fl_pos_bounds(3)[OF assms(1)] overflow_gt by simp
  then show ?thesis using fl_pos_bounds(3)[OF assms(1)] by (simp add: dbl_Fin)
qed

lemma js_div_pos: "0 < x \<Longrightarrow> 0 < y \<Longrightarrow> js_div (Fin x) (Fin y) = dbl False (x / y)"
  by (simp add: js_div_def is_inf_def is_zero_def is_neg_def val_def)

lemma js_div_zero: "0 < y \<Longrightarrow> js_div (Fin 0) (Fin y) = Fin 0"
  by (simp add: js_div_def is_inf_def is_zero_def is_neg_def val_def dbl_zero)

lemma js_mul_pos: "0 < x \<Longrightarrow> 0 < y \<Longrightarrow> js_mul (Fin x) (Fin y) = dbl False (x * y)"
  by (simp add: js_mul_def is_inf_def is_zero_def is_neg_def val_def)

lemma js_round_pos: "0 \<le> p \<Longrightarrow> js_round (Fin p) = Fin (of_int \<lfloor>p + 1 / 2\<rfloor>)"
  by (simp add: js_round_def)

lemma pow2_small: "(2::real) powi (- 1000) \<le> 1 / 2 ^ k" if "k \<le> 1000"
proof -
  have "(2::real) powi (- 1000) \<le> 2 powi (- int k)"
    using that by (intro power_int_increasing) simp_all
  then show ?thesis by (simp add: power_int_minus_divide)
qed

lemma sum_list_abs_diff:
  fixes f g h :: "'a \<Rightarrow> real"
  shows "(\<And>x. x \<in> set xs \<Longrightarrow> \<bar>f x - g x\<bar> \<le> h x)
    \<Longrightarrow> \<bar>sum_list (map f xs) - sum_list (map g xs)\<bar> \<le> sum_list (map h xs)"
proof (induction xs)
  case Nil
  then show ?case by simp
next
  case (Cons x xs)
  have "\<bar>f x - g x\<bar> \<le> h x" using Cons.prems by simp
  moreover have "\<bar>sum_list (map f xs) - sum_list (map g xs)\<bar> \<le> sum_list (map h xs)"
    using Cons.prems by (intro Cons.IH) simp
  ultimately show ?case by simp
qed

lemma sum_list_affine:
  fixes k :: "'a \<Rightarrow> real"
  shows "sum_list (map (\<lambda>x. b + k x * d) xs) = real (length xs) * b + sum_list (map k xs) * d"
  by (induction xs) (simp_all add: algebra_simps)

lemma sum_list_real: "sum_list (map (\<lambda>x. real (f x)) xs) = real (sum_list (map f xs))"
  by (induction xs) simp_all

lemma sum_list_ge_const:
  fixes f :: "'a \<Rightarrow> nat"
  shows "(\<And>x. x \<in> set xs \<Longrightarrow> b \<le> f x) \<Longrightarrow> length xs * b \<le> sum_list (map f xs)"
  by (induction xs) (simp_all add: add_mono)

lemma sum_list_le_const:
  fixes f :: "'a \<Rightarrow> nat"
  shows "(\<And>x. x \<in> set xs \<Longrightarrow> f x \<le> b) \<Longrightarrow> sum_list (map f xs) \<le> length xs * b"
  by (induction xs) (simp_all add: add_mono)

text \<open>The first pass: the ratio and the raw count of one tensor.\<close>

lemma ratio_bounds:
  fixes total T :: nat
  assumes "0 < total" "total \<le> 2 ^ 53" "0 < T" "T \<le> 2 ^ 50"
  defines "x \<equiv> real total / real T"
  shows "js_div (num total) (num T) = Fin (fl x)"
    and "x * (1 - eps) \<le> fl x" and "fl x \<le> x * (1 + eps)" and "0 < fl x"
proof -
  have Tr: "real T \<le> 2 ^ 50" using assms(4) by (rule real_nat_le_pow)
  have tr: "real total \<le> 2 ^ 53" using assms(2) by (rule real_nat_le_pow)
  have "1 / 2 ^ 50 \<le> 1 / real T" using Tr assms(3) by (intro divide_left_mono) simp_all
  also have "\<dots> \<le> x" unfolding x_def using assms(1,3) by (intro divide_right_mono) simp_all
  finally have "2 powi (- 1000) \<le> x" using pow2_small[of 50] by simp
  then have ln: "least_normal \<le> x" by (rule least_normal_le)
  have "x \<le> real total / 1" unfolding x_def using assms(1,3) by (intro divide_left_mono) simp_all
  then have "x \<le> 2 ^ 53" using tr by simp
  moreover have "(2::real) ^ 53 \<le> 2 ^ 999" by (rule power_increasing) simp_all
  ultimately have ub: "x \<le> 2 ^ 999" by linarith
  show "js_div (num total) (num T) = Fin (fl x)"
    using assms(1,3) dbl_pos[OF ln ub] by (simp add: js_div_pos x_def)
  show "x * (1 - eps) \<le> fl x" "fl x \<le> x * (1 + eps)" "0 < fl x"
    using fl_pos_bounds[OF ln] by simp_all
qed

lemma eps_small: "(2 * 2 ^ 50 + 1) * eps < 1"
proof -
  have "(2 * 2 ^ 50 + 1) * eps \<le> (2 * 2 ^ 50 + 1) * (1 / 2 ^ 53)"
    using eps_le by (intro mult_left_mono) simp_all
  also have "\<dots> < 1" by simp
  finally show ?thesis .
qed

lemma raw_count:
  fixes total T e :: nat
  assumes "0 < total" "total \<le> 2 ^ 53" "0 < T" "T \<le> 2 ^ 50" "e \<le> total"
  defines "R \<equiv> fl (real total / real T)"
  shows "js_max (num MIN_POINTS_PER_TENSOR) (js_floor (js_div (num e) (Fin R)))
           = num (max 400 (nat \<lfloor>fl (real e / R)\<rfloor>))"
    and "max 400 (nat \<lfloor>fl (real e / R)\<rfloor>) \<le> max 400 T"
proof -
  define x where "x = real total / real T"
  have Rb: "x * (1 - eps) \<le> R" "R \<le> x * (1 + eps)" "0 < R"
    unfolding R_def x_def using ratio_bounds(2-4)[OF assms(1-4)] by simp_all
  have xpos: "0 < x" unfolding x_def using assms(1,3) by simp
  have e1: "eps \<le> 1 / 2" using eps_le by (rule order_trans) simp
  have q: "js_div (num e) (Fin R) = Fin (fl (real e / R)) \<and> 0 \<le> fl (real e / R)
           \<and> fl (real e / R) < real T + 1"
  proof (cases "e = 0")
    case True
    then show ?thesis using Rb(3) assms(3) by (simp add: js_div_zero fl_zero)
  next
    case False
    define y where "y = real e / R"
    have ypos: "0 < y" unfolding y_def using False Rb(3) by simp
    have "x \<le> 2 ^ 53"
    proof -
      have "x \<le> real total / 1" unfolding x_def using assms(1,3) by (intro divide_left_mono) simp_all
      then show ?thesis using real_nat_le_pow[OF assms(2)] by simp
    qed
    then have "x * (1 + eps) \<le> 2 ^ 53 * 2" using e1 xpos eps_pos by (intro mult_mono) simp_all
    then have Rle: "R \<le> 2 ^ 54" using Rb(2) by simp
    have "1 / 2 ^ 54 \<le> 1 / R" using Rle Rb(3) by (intro divide_left_mono) simp_all
    also have "\<dots> \<le> y" unfolding y_def using False Rb(3) by (intro divide_right_mono) simp_all
    finally have "2 powi (- 1000) \<le> y" using pow2_small[of 54] by simp
    then have ln: "least_normal \<le> y" by (rule least_normal_le)
    have tx: "real total = x * real T" unfolding x_def using assms(3) by simp
    have "y \<le> real total / R" unfolding y_def using assms(5) Rb(3) by (intro divide_right_mono) simp_all
    also have "\<dots> \<le> real total / (x * (1 - eps))"
    proof -
      have p: "0 < x * (1 - eps)" using xpos e1 by (intro mult_pos_pos) simp_all
      then have pp: "0 < R * (x * (1 - eps))" using Rb(3) by (rule mult_pos_pos[rotated])
      show ?thesis by (rule divide_left_mono[OF Rb(1) _ pp]) simp
    qed
    also have "\<dots> = real T / (1 - eps)" using xpos by (simp add: tx)
    finally have yT: "y \<le> real T / (1 - eps)" .
    have Tr: "real T \<le> 2 ^ 50" using assms(4) by (rule real_nat_le_pow)
    have "real T / (1 - eps) \<le> 2 ^ 50 / (1 / 2)"
      using Tr e1 by (intro frac_le) simp_all
    with yT have "y \<le> 2 ^ 51" by simp
    moreover have "(2::real) ^ 51 \<le> 2 ^ 999" by (rule power_increasing) simp_all
    ultimately have ub: "y \<le> 2 ^ 999" by linarith
    have d: "js_div (num e) (Fin R) = Fin (fl y)"
      using False Rb(3) dbl_pos[OF ln ub] by (simp add: js_div_pos y_def)
    have "fl y \<le> y * (1 + eps)" by (rule fl_pos_bounds(2)[OF ln])
    also have "\<dots> \<le> real T / (1 - eps) * (1 + eps)"
      using yT eps_pos by (intro mult_right_mono) simp_all
    also have "\<dots> < real T + 1"
    proof -
      have "(2 * real T + 1) * eps \<le> (2 * 2 ^ 50 + 1) * eps"
        using Tr eps_pos by (intro mult_right_mono) simp_all
      then have "(2 * real T + 1) * eps < 1" using eps_small by linarith
      then have "real T * (1 + eps) < (real T + 1) * (1 - eps)" by (simp add: algebra_simps)
      then show ?thesis using e1 by (simp add: field_simps)
    qed
    finally have "fl y < real T + 1" .
    moreover have "0 \<le> fl y" using fl_pos_bounds(3)[OF ln] by simp
    ultimately show ?thesis using d by (simp add: y_def)
  qed
  define z where "z = \<lfloor>fl (real e / R)\<rfloor>"
  have z0: "0 \<le> z" using q by (simp add: z_def)
  have zT: "z \<le> int T" using q unfolding z_def by linarith
  have "js_max (num MIN_POINTS_PER_TENSOR) (js_floor (js_div (num e) (Fin R)))
          = Fin (max 400 (of_int z))"
    using q by (simp add: js_floor_Fin js_max_Fin MIN_POINTS_PER_TENSOR_def z_def)
  also have "max 400 (real_of_int z) = real (max 400 (nat z))"
  proof -
    have "real (max 400 (nat z)) = max 400 (real (nat z))" by (simp add: max_def)
    also have "real (nat z) = real_of_int z" using z0 by simp
    finally show ?thesis by simp
  qed
  finally show "js_max (num MIN_POINTS_PER_TENSOR) (js_floor (js_div (num e) (Fin R)))
           = num (max 400 (nat \<lfloor>fl (real e / R)\<rfloor>))" by (simp add: z_def)
  show "max 400 (nat \<lfloor>fl (real e / R)\<rfloor>) \<le> max 400 T"
    using zT z0 unfolding z_def[symmetric] by (simp add: max_def) linarith
qed

lemma rescaled_count:
  fixes T S k :: nat
  assumes "0 < T" "T \<le> 2 ^ 50" "0 < S" "S \<le> 2 ^ 50" "400 \<le> k" "k \<le> S"
  defines "w \<equiv> real T / real S" and "c \<equiv> fl (real T / real S)"
  shows "js_div (num T) (num S) = Fin c"
    and "rescaled (Fin c) (num k) = num (nat \<lfloor>fl (real k * c) + 1 / 2\<rfloor>)"
    and "\<bar>real (nat \<lfloor>fl (real k * c) + 1 / 2\<rfloor>) - real k * w\<bar> \<le> 1 / 2 + real k * w * (3 * eps)"
proof -
  have e1: "eps \<le> 1 / 2" using eps_le by (rule order_trans) simp
  have e0: "0 < eps" by (rule eps_pos)
  have Tr: "real T \<le> 2 ^ 50" using assms(2) by (rule real_nat_le_pow)
  have Sr: "real S \<le> 2 ^ 50" using assms(4) by (rule real_nat_le_pow)
  have wpos: "0 < w" unfolding w_def using assms(1,3) by simp
  have "1 / 2 ^ 50 \<le> 1 / real S" using Sr assms(3) by (intro divide_left_mono) simp_all
  also have "\<dots> \<le> w" unfolding w_def using assms(1,3) by (intro divide_right_mono) simp_all
  finally have wlo: "1 / 2 ^ 50 \<le> w" .
  then have "2 powi (- 1000) \<le> w" using pow2_small[of 50] by simp
  then have ln: "least_normal \<le> w" by (rule least_normal_le)
  have "w \<le> real T / 1" unfolding w_def using assms(1,3) by (intro divide_left_mono) simp_all
  then have whi: "w \<le> 2 ^ 50" using Tr by simp
  moreover have "(2::real) ^ 50 \<le> 2 ^ 999" by (rule power_increasing) simp_all
  ultimately have ub: "w \<le> 2 ^ 999" by linarith
  show sc: "js_div (num T) (num S) = Fin c"
    using assms(1,3) dbl_pos[OF ln ub] by (simp add: js_div_pos w_def c_def)
  have cb: "w * (1 - eps) \<le> c" "c \<le> w * (1 + eps)" "0 < c"
    unfolding c_def w_def[symmetric] using fl_pos_bounds[OF ln] by simp_all
  have cw: "\<bar>c - w\<bar> \<le> w * eps" using cb by (simp add: algebra_simps abs_le_iff)
  define y where "y = real k * c"
  have kpos: "0 < real k" using assms(5) by simp
  have k400: "400 \<le> real k" using assms(5) by simp
  have ypos: "0 < y" unfolding y_def using kpos cb(3) by simp
  have "w * (1 / 2) \<le> w * (1 - eps)" using wpos e1 by (intro mult_left_mono) simp_all
  then have "w / 2 \<le> c" using cb(1) by simp
  then have "1 * (w / 2) \<le> real k * c" using k400 wpos by (intro mult_mono) simp_all
  then have "1 / 2 ^ 51 \<le> y" using wlo by (simp add: y_def)
  then have "2 powi (- 1000) \<le> y" using pow2_small[of 51] by simp
  then have lny: "least_normal \<le> y" by (rule least_normal_le)
  have kS: "real k \<le> real S" using assms(6) by simp
  have yw: "y \<le> real k * w * (1 + eps)"
    unfolding y_def using cb(2) kpos by (simp add: mult.assoc)
  have "real k * w \<le> real S * w" using kS wpos by (intro mult_right_mono) simp_all
  also have "\<dots> = real T" unfolding w_def using assms(3) by simp
  finally have kw: "real k * w \<le> real T" .
  have "real k * w * (1 + eps) \<le> 2 ^ 50 * 2"
    using kw Tr e1 e0 wpos kpos by (intro mult_mono) simp_all
  with yw have "y \<le> 2 ^ 51" by simp
  moreover have "(2::real) ^ 51 \<le> 2 ^ 999" by (rule power_increasing) simp_all
  ultimately have uby: "y \<le> 2 ^ 999" by linarith
  have m: "js_mul (num k) (Fin c) = Fin (fl y)"
    using kpos cb(3) dbl_pos[OF lny uby] by (simp add: js_mul_pos y_def)
  have fy: "0 < fl y" by (rule fl_pos_bounds(3)[OF lny])
  define z where "z = \<lfloor>fl y + 1 / 2\<rfloor>"
  have z0: "0 \<le> z" unfolding z_def using fy by linarith
  have "rescaled (Fin c) (num k) = Fin (of_int z)"
    using fy by (simp add: rescaled_def m js_round_pos z_def)
  also have "real_of_int z = real (nat z)" using z0 by simp
  finally show "rescaled (Fin c) (num k) = num (nat \<lfloor>fl (real k * c) + 1 / 2\<rfloor>)"
    by (simp add: z_def y_def)
  have a1: "\<bar>real (nat z) - fl y\<bar> \<le> 1 / 2"
  proof -
    have "real (nat z) = real_of_int z" using z0 by simp
    moreover have "real_of_int z \<le> fl y + 1 / 2" "fl y + 1 / 2 < real_of_int z + 1"
      unfolding z_def by linarith+
    ultimately show ?thesis by linarith
  qed
  have a2: "\<bar>fl y - y\<bar> \<le> y * eps"
    using fl_error[of y] lny ypos by simp
  have a3: "\<bar>y - real k * w\<bar> \<le> real k * w * eps"
  proof -
    have "y - real k * w = real k * (c - w)" by (simp add: y_def algebra_simps)
    then have "\<bar>y - real k * w\<bar> = real k * \<bar>c - w\<bar>" using kpos by (simp add: abs_mult)
    also have "\<dots> \<le> real k * (w * eps)" using cw kpos by (intro mult_left_mono) simp_all
    finally show ?thesis by (simp add: mult.assoc)
  qed
  have "y * eps \<le> real k * w * (1 + eps) * eps" using yw e0 by (intro mult_right_mono) simp_all
  also have "\<dots> \<le> real k * w * 2 * eps"
  proof -
    have "real k * w * (1 + eps) \<le> real k * w * 2"
      using e1 kpos wpos by (intro mult_left_mono) simp_all
    then show ?thesis using e0 by (intro mult_right_mono) simp_all
  qed
  finally have a2': "\<bar>fl y - y\<bar> \<le> real k * w * 2 * eps" using a2 by linarith
  from a1 a2' a3 have "\<bar>real (nat z) - real k * w\<bar> \<le> 1 / 2 + real k * w * 2 * eps + real k * w * eps"
    by linarith
  then show "\<bar>real (nat \<lfloor>fl (real k * c) + 1 / 2\<rfloor>) - real k * w\<bar> \<le> 1 / 2 + real k * w * (3 * eps)"
    by (simp add: z_def y_def algebra_simps)
qed

lemma allocation_lemma:
  fixes T :: nat and es :: "nat list"
  assumes ne: "ts \<noteq> []"
    and el: "map numElements ts = map num es"
    and t0: "0 < sum_list es" and t1: "sum_list es \<le> 2 ^ 53"
    and T0: "0 < T"
    and sz: "length ts * (T + 400) \<le> 2 ^ 50"
  shows "\<forall>c \<in> set (pointCounts ts (num T)). \<exists>k. c = num k \<and> 400 \<le> k"
    and "\<exists>a. actualTotal ts (num T) = num a
           \<and> int T - int (length ts) \<le> int a \<and> int a \<le> int T + 401 * int (length ts)"
    and "(\<forall>c \<in> set (rawCounts ts (num T)).
            js_ge (rescaled (js_div (num T) (allocTotal (rawCounts ts (num T)))) c) (num 400))
         \<Longrightarrow> \<exists>a. actualTotal ts (num T) = num a \<and> \<bar>int a - int T\<bar> \<le> int (length ts)"
proof -
  define n where "n = length ts"
  have len: "length es = n" using el unfolding n_def by (metis length_map)
  have n1: "1 \<le> n" using ne by (simp add: n_def Suc_le_eq)
  define total where "total = sum_list es"
  have "T + 400 \<le> n * (T + 400)" using n1 by simp
  then have T400: "T + 400 \<le> 2 ^ 50" using sz unfolding n_def by (rule order_trans)
  then have T50: "T \<le> 2 ^ 50" by simp
  define R where "R = fl (real total / real T)"
  define r where "r e = max 400 (nat \<lfloor>fl (real e / R)\<rfloor>)" for e :: nat
  have tp: "totalParams ts = num total"
    unfolding total_def using el t1 by (rule totalParams_nat)
  have tot: "0 < total" "total \<le> 2 ^ 53" using t0 t1 by (simp_all add: total_def)
  have ratio: "js_div (totalParams ts) (num T) = Fin R"
    unfolding tp R_def by (rule ratio_bounds(1)[OF tot T0 T50])
  have mem: "e \<le> total" if "e \<in> set es" for e
    unfolding total_def using that by (simp add: member_le_sum_list)
  have rc: "js_max (num MIN_POINTS_PER_TENSOR) (js_floor (js_div (num e) (Fin R))) = num (r e)"
    and rb: "r e \<le> max 400 T" if "e \<in> set es" for e
    unfolding r_def R_def using raw_count[OF tot T0 T50 mem[OF that]] by simp_all
  have r400: "400 \<le> r e" for e by (simp add: r_def)
  have "rawCounts ts (num T)
        = map (\<lambda>x. js_max (num MIN_POINTS_PER_TENSOR) (js_floor (js_div x (Fin R)))) (map numElements ts)"
    by (simp add: rawCounts_def ratio Let_def comp_def)
  also have "\<dots> = map (\<lambda>e. js_max (num MIN_POINTS_PER_TENSOR) (js_floor (js_div (num e) (Fin R)))) es"
    by (simp add: el comp_def)
  also have "\<dots> = map (\<lambda>e. num (r e)) es" using rc by (intro map_cong) simp_all
  finally have raw: "rawCounts ts (num T) = map (\<lambda>e. num (r e)) es" .
  define S where "S = sum_list (map r es)"
  have S_lo: "n * 400 \<le> S"
    unfolding S_def len[symmetric] by (rule sum_list_ge_const) (rule r400)
  have "S \<le> n * max 400 T"
    unfolding S_def len[symmetric] by (rule sum_list_le_const) (rule rb)
  also have "\<dots> \<le> n * (T + 400)" by (intro mult_left_mono) simp_all
  finally have S50: "S \<le> 2 ^ 50" using sz unfolding n_def by (rule order_trans)
  have Spos: "0 < S" using S_lo n1 by linarith
  have "(2::nat) ^ 50 \<le> 2 ^ 53" by (rule power_increasing) simp_all
  with S50 have "S \<le> 2 ^ 53" by linarith
  then have at': "allocTotal (map (\<lambda>e. num (r e)) es) = num S"
    unfolding S_def using allocTotal_nat[of "map r es"] by (simp add: comp_def)
  then have at: "allocTotal (rawCounts ts (num T)) = num S" by (simp only: raw)
  have gt: "js_gt (num S) (Fin 0)" using Spos by (simp add: js_gt_def js_lt_def val_def)
  define w where "w = real T / real S"
  define c where "c = fl (real T / real S)"
  define a where "a k = nat \<lfloor>fl (real k * c) + 1 / 2\<rfloor>" for k :: nat
  have rS: "r e \<le> S" if "e \<in> set es" for e
    unfolding S_def using that by (simp add: member_le_sum_list)
  obtain e0 where e0: "e0 \<in> set es" using len n1 by (cases es) auto
  have sc: "js_div (num T) (num S) = Fin c"
    unfolding c_def by (rule rescaled_count(1)[OF T0 T50 Spos S50 r400 rS[OF e0]])
  have resc: "rescaled (Fin c) (num (r e)) = num (a (r e))"
    and err: "\<bar>real (a (r e)) - real (r e) * w\<bar> \<le> 1 / 2 + real (r e) * w * (3 * eps)"
    if "e \<in> set es" for e
    unfolding a_def c_def w_def
    using rescaled_count(2,3)[OF T0 T50 Spos S50 r400 rS[OF that]] by simp_all
  have "pointCounts ts (num T)
        = map (\<lambda>x. js_max (num MIN_POINTS_PER_TENSOR) (rescaled (Fin c) x)) (map (\<lambda>e. num (r e)) es)"
    using gt by (simp add: pointCounts_def rescale_def raw at' sc Let_def)
  also have "\<dots> = map (\<lambda>e. js_max (num MIN_POINTS_PER_TENSOR) (rescaled (Fin c) (num (r e)))) es"
    by (simp add: comp_def)
  also have "\<dots> = map (\<lambda>e. num (max 400 (a (r e)))) es"
    using resc by (intro map_cong) (simp_all add: js_max_Fin MIN_POINTS_PER_TENSOR_def max_def)
  finally have pc: "pointCounts ts (num T) = map (\<lambda>e. num (max 400 (a (r e)))) es" .
  show "\<forall>c \<in> set (pointCounts ts (num T)). \<exists>k. c = num k \<and> 400 \<le> k"
    unfolding pc by auto
  define A where "A = sum_list (map (\<lambda>e. a (r e)) es)"
  define B where "B = sum_list (map (\<lambda>e. max 400 (a (r e))) es)"
  have wS: "real S * w = real T" unfolding w_def using Spos by simp
  have "\<bar>sum_list (map (\<lambda>e. real (a (r e))) es) - sum_list (map (\<lambda>e. real (r e) * w) es)\<bar>
          \<le> sum_list (map (\<lambda>e. 1 / 2 + real (r e) * (w * (3 * eps))) es)"
    by (rule sum_list_abs_diff) (use err in \<open>simp add: mult.assoc\<close>)
  moreover have "sum_list (map (\<lambda>e. real (a (r e))) es) = real A"
    unfolding A_def by (rule sum_list_real)
  moreover have "sum_list (map (\<lambda>e. real (r e) * w) es) = real T"
  proof -
    have "sum_list (map (\<lambda>e. real (r e) * w) es) = sum_list (map (\<lambda>e. real (r e)) es) * w"
      using sum_list_affine[of 0 "\<lambda>e. real (r e)" w es] by simp
    also have "\<dots> = real S * w" unfolding S_def by (simp add: sum_list_real)
    finally show ?thesis by (simp add: wS)
  qed
  moreover have "sum_list (map (\<lambda>e. 1 / 2 + real (r e) * (w * (3 * eps))) es)
         = real n / 2 + real T * (3 * eps)"
  proof -
    have "sum_list (map (\<lambda>e. 1 / 2 + real (r e) * (w * (3 * eps))) es)
          = real (length es) * (1 / 2) + sum_list (map (\<lambda>e. real (r e)) es) * (w * (3 * eps))"
      by (rule sum_list_affine)
    also have "sum_list (map (\<lambda>e. real (r e)) es) = real S" unfolding S_def by (rule sum_list_real)
    finally show ?thesis using wS by (simp add: len algebra_simps)
  qed
  ultimately have d: "\<bar>real A - real T\<bar> \<le> real n / 2 + real T * (3 * eps)" by simp
  have "real T * (3 * eps) \<le> 2 ^ 50 * (3 * (1 / 2 ^ 53))"
    using real_nat_le_pow[OF T50] eps_le eps_pos by (intro mult_mono) simp_all
  then have "real T * (3 * eps) \<le> 3 / 8" by simp
  with d have d': "\<bar>real A - real T\<bar> \<le> real n / 2 + 3 / 8" by linarith
  have nr: "1 \<le> real n" using n1 by simp
  from d' nr have "\<bar>real A - real T\<bar> < real n + 1 / 2" by linarith
  then have "\<bar>real_of_int (int A - int T)\<bar> < real_of_int (int n) + 1 / 2" by simp
  then have dn: "\<bar>int A - int T\<bar> \<le> int n"
  proof -
    assume "\<bar>real_of_int (int A - int T)\<bar> < real_of_int (int n) + 1 / 2"
    then have "real_of_int \<bar>int A - int T\<bar> < real_of_int (int n + 1)" by simp
    then have "\<bar>int A - int T\<bar> < int n + 1" by (simp only: of_int_less_iff)
    then show ?thesis by simp
  qed
  have AB: "A \<le> B" unfolding A_def B_def by (rule sum_list_mono) simp
  have "B \<le> sum_list (map (\<lambda>e. a (r e) + 400) es)"
    unfolding B_def by (rule sum_list_mono) simp
  also have "\<dots> = A + n * 400"
    unfolding A_def len[symmetric] by (induction es) simp_all
  finally have BA: "B \<le> A + n * 400" .
  have lo: "int T - int n \<le> int B" using dn AB by linarith
  have hi: "int B \<le> int T + 401 * int n" using dn BA by linarith
  have "n * 400 \<le> n * (T + 400)" by simp
  then have "n * 400 \<le> 2 ^ 50" using sz unfolding n_def by (rule order_trans)
  then have n400: "int n * 400 \<le> 2 ^ 50"
    by (metis of_nat_le_iff of_nat_numeral of_nat_power of_nat_mult)
  have "int T \<le> 2 ^ 50" using T50 by (metis of_nat_le_iff of_nat_numeral of_nat_power)
  moreover have "0 \<le> int n" by simp
  moreover have "(2::int) ^ 51 = 2 * 2 ^ 50" by simp
  ultimately have "int B \<le> 2 ^ 50 + 2 ^ 51" using hi n400 by linarith
  then have "int B \<le> int (2 ^ 52)" by simp
  then have "B \<le> 2 ^ 52" by (simp only: of_nat_le_iff)
  moreover have "(2::nat) ^ 52 \<le> 2 ^ 53" by (rule power_increasing) simp_all
  ultimately have B53: "B \<le> 2 ^ 53" by linarith
  have pcB: "pointCounts ts (num T) = map num (map (\<lambda>e. max 400 (a (r e))) es)"
    by (simp add: pc comp_def)
  have total: "actualTotal ts (num T) = num B"
    unfolding actualTotal_def pcB using B53 unfolding B_def by (rule allocTotal_nat)
  from total lo hi
  show "\<exists>a. actualTotal ts (num T) = num a
           \<and> int T - int (length ts) \<le> int a \<and> int a \<le> int T + 401 * int (length ts)"
    unfolding n_def by blast
  assume H: "\<forall>c \<in> set (rawCounts ts (num T)).
            js_ge (rescaled (js_div (num T) (allocTotal (rawCounts ts (num T)))) c) (num 400)"
  have a400: "400 \<le> a (r e)" if "e \<in> set es" for e
  proof -
    have "num (r e) \<in> set (rawCounts ts (num T))" unfolding raw using that by simp
    with H have "js_ge (rescaled (Fin c) (num (r e))) (num 400)" by (simp add: at sc)
    then have "js_ge (num (a (r e))) (num 400)" by (simp add: resc[OF that])
    then show ?thesis by (simp add: js_ge_def js_lt_def val_def)
  qed
  have "map (\<lambda>e. max 400 (a (r e))) es = map (\<lambda>e. a (r e)) es"
    using a400 by (intro map_cong) (simp_all add: max_def)
  then have "B = A" unfolding A_def B_def by (rule arg_cong)
  with total dn show "\<exists>a. actualTotal ts (num T) = num a \<and> \<bar>int a - int T\<bar> \<le> int (length ts)"
    unfolding n_def by blast
qed

text \<open>
  C4, as amended. For a non-empty list of \<open>n\<close> tensors with whole element counts
  (their total positive and at most \<open>2 ^ 53\<close>) and a target \<open>T \<ge> 1\<close> with
  \<open>n * (T + 400) \<le> 2 ^ 50\<close>: every allocation after the rescale pass is a whole number
  of at least 400 points; the sum of the allocations is at least \<open>T - n\<close> and at most
  \<open>T + 401 * n\<close>; and if the rescale pass lifts no tensor to the floor (each rounded
  rescaled allocation is at least 400), the sum differs from \<open>T\<close> by at most \<open>n\<close>.
\<close>

theorem allocation_sum:
  fixes T :: nat and es :: "nat list"
  assumes "ts \<noteq> []" and "map numElements ts = map num es"
    and "0 < sum_list es" and "sum_list es \<le> 2 ^ 53"
    and "0 < T" and "length ts * (T + 400) \<le> 2 ^ 50"
  shows "(\<forall>c \<in> set (pointCounts ts (num T)). \<exists>k. c = num k \<and> 400 \<le> k)
       \<and> (\<exists>a. actualTotal ts (num T) = num a
              \<and> int T - int (length ts) \<le> int a \<and> int a \<le> int T + 401 * int (length ts))
       \<and> ((\<forall>c \<in> set (rawCounts ts (num T)).
              js_ge (rescaled (js_div (num T) (allocTotal (rawCounts ts (num T)))) c) (num 400))
            \<longrightarrow> (\<exists>a. actualTotal ts (num T) = num a \<and> \<bar>int a - int T\<bar> \<le> int (length ts)))"
  using allocation_lemma[OF assms] by blast

lemma dbl_numeral: "numeral k \<le> (2::nat) ^ 53 \<Longrightarrow> dbl False (numeral k) = Fin (numeral k)"
  using dbl_nat[of "numeral k"] by simp

lemma dbl_quarter: "dbl False (1 / 4) = Fin (1 / 4)"
proof -
  have "fl (1 / 4) = 1 / 4" using fl_exact[of "1 / 4" 1 "- 2"] by (simp add: power_int_minus)
  moreover have "(1 / 4 :: real) \<le> 2 ^ 1000" by simp
  then have "\<bar>1 / 4 :: real\<bar> < dbl_overflow" using overflow_gt[of "1 / 4"] by simp
  ultimately show ?thesis using dbl_Fin[of "1 / 4" False] by simp
qed

lemma dbl_one: "dbl False 1 = Fin 1"
  using dbl_nat[of 1] by simp

lemma raw_two: "rawCounts [tensor_of 1000, tensor_of 1000] (num 1000) = [num 500, num 500]"
proof -
  have a: "js_add (num 1000) (num 1000) = num 2000" using js_add_nat[of 1000 1000] by simp
  have b: "js_add (Fin 0) (num 1000) = num 1000" using js_add_nat[of 0 1000] by simp
  have c: "js_div (num 2000) (num 1000) = Fin 2" by (simp add: js_div_pos dbl_numeral)
  have d: "js_div (num 1000) (Fin 2) = Fin 500" by (simp add: js_div_pos dbl_numeral)
  have e: "js_max (num 400) (js_floor (Fin 500)) = num 500" by (simp add: js_floor_Fin js_max_Fin)
  show ?thesis
    using a b c d e by (simp add: rawCounts_def totalParams_def tensor_of_def Let_def MIN_POINTS_PER_TENSOR_def)
qed

theorem allocation_sum_witness:
  "rawCounts [tensor_of 1000, tensor_of 1000] (num 1000) = [num 500, num 500]
   \<and> (\<exists>a. actualTotal [tensor_of 1000, tensor_of 1000] (num 1000) = num a
            \<and> \<bar>int a - int 1000\<bar> \<le> int (length [tensor_of 1000, tensor_of 1000]))"
proof -
  have 1: "[tensor_of 1000, tensor_of 1000] \<noteq> []" by simp
  have 2: "map numElements [tensor_of 1000, tensor_of 1000] = map num [1000, 1000]"
    by (simp add: tensor_of_def)
  have 3: "0 < sum_list [1000, 1000 :: nat]" "sum_list [1000, 1000 :: nat] \<le> 2 ^ 53" by simp_all
  have 4: "0 < (1000 :: nat)" by simp
  have 5: "length [tensor_of 1000, tensor_of 1000] * (1000 + 400) \<le> 2 ^ 50" by simp
  have at: "allocTotal [num 500, num 500] = num 1000"
    using allocTotal_nat[of "[500, 500]"] by simp
  have sc: "js_div (num 1000) (num 1000) = Fin 1" by (simp add: js_div_pos dbl_one)
  have m: "js_mul (Fin 500) (Fin 1) = Fin 500" by (simp add: js_mul_pos dbl_numeral)
  have r: "rescaled (Fin 1) (num 500) = num 500" by (simp add: rescaled_def m js_round_pos)
  have ge: "js_ge (num 500) (num 400)" by (simp add: js_ge_def js_lt_def val_def)
  have 6: "\<forall>c \<in> set (rawCounts [tensor_of 1000, tensor_of 1000] (num 1000)).
              js_ge (rescaled (js_div (num 1000) (allocTotal (rawCounts [tensor_of 1000, tensor_of 1000] (num 1000)))) c) (num 400)"
    unfolding raw_two at sc using r ge by simp
  from allocation_sum[OF 1 2 3 4 5] 6 raw_two show ?thesis by blast
qed

text \<open>
  C4 as stated fails: one tensor of 100 elements and a target of 100 points give an
  allocation of 400 points, 300 away from the target.
\<close>

theorem allocation_sum_counterexample:
  "actualTotal [tensor_of 100] (num 100) = num 400
   \<and> length [tensor_of 100] = 1 \<and> \<not> \<bar>int 400 - int 100\<bar> \<le> int 1"
proof -
  have b: "js_add (Fin 0) (num 100) = num 100" using js_add_nat[of 0 100] by simp
  have c: "js_div (num 100) (num 100) = Fin 1" by (simp add: js_div_pos dbl_one)
  have d: "js_div (num 100) (Fin 1) = Fin 100" by (simp add: js_div_pos dbl_numeral)
  have e: "js_max (num 400) (js_floor (Fin 100)) = num 400" by (simp add: js_floor_Fin js_max_Fin)
  have raw: "rawCounts [tensor_of 100] (num 100) = [num 400]"
    using b c d e by (simp add: rawCounts_def totalParams_def tensor_of_def Let_def MIN_POINTS_PER_TENSOR_def)
  have at: "allocTotal [num 400] = num 400" using allocTotal_nat[of "[400]"] by simp
  have gt: "js_gt (num 400) (Fin 0)" by (simp add: js_gt_def js_lt_def val_def)
  have sc: "js_div (num 100) (num 400) = Fin (1 / 4)" by (simp add: js_div_pos dbl_quarter)
  have m: "js_mul (Fin 400) (Fin (1 / 4)) = Fin 100" by (simp add: js_mul_pos dbl_numeral)
  have r: "js_max (num 400) (rescaled (Fin (1 / 4)) (num 400)) = num 400"
    by (simp add: rescaled_def m js_round_pos js_max_Fin)
  have "pointCounts [tensor_of 100] (num 100) = [num 400]"
    unfolding pointCounts_def rescale_def raw at sc Let_def MIN_POINTS_PER_TENSOR_def
    using gt r by simp
  then have "actualTotal [tensor_of 100] (num 100) = num 400"
    unfolding actualTotal_def using at by simp
  then show ?thesis by simp
qed

subsection \<open>The values drawn from \<open>Math.random\<close>\<close>

lemma lineLoop_cong:
  "(\<And>i. k \<le> i \<Longrightarrow> i < k + 2 * n \<Longrightarrow> rng i = rng' i)
   \<Longrightarrow> lineLoop rng src tgt pos df n (k, p, c) = lineLoop rng' src tgt pos df n (k, p, c)"
proof (induction n arbitrary: k p c)
  case 0
  then show ?case by simp
next
  case (Suc n)
  have a: "rng k = rng' k" "rng (Suc k) = rng' (Suc k)" using Suc.prems by simp_all
  have b: "\<And>i. Suc (Suc k) \<le> i \<Longrightarrow> i < Suc (Suc k) + 2 * n \<Longrightarrow> rng i = rng' i"
    using Suc.prems by simp
  show ?case
    by (simp add: Let_def a Suc.IH[OF b])
qed

lemma sampleLines_cong:
  assumes "\<forall>n. loop_iterations (lineCount (js_sub (num (endIdx src)) (num (startIdx src)))
                   (js_sub (num (endIdx tgt)) (num (startIdx tgt))) density) = Some n
              \<longrightarrow> (\<forall>i. k \<le> i \<and> i < k + 2 * n \<longrightarrow> rng i = rng' i)"
  shows "sampleLines rng src tgt pos density df (k, p, c)
           = sampleLines rng' src tgt pos density df (k, p, c)"
proof (cases "loop_iterations (lineCount (js_sub (num (endIdx src)) (num (startIdx src)))
                   (js_sub (num (endIdx tgt)) (num (startIdx tgt))) density)")
  case None
  then show ?thesis by (simp add: sampleLines_def Let_def)
next
  case (Some n)
  with assms have "\<And>i. k \<le> i \<Longrightarrow> i < k + 2 * n \<Longrightarrow> rng i = rng' i" by blast
  from lineLoop_cong[OF this] show ?thesis using Some by (simp add: sampleLines_def Let_def)
qed

lemma pointStep_cong:
  assumes "\<And>i. k \<le> i \<Longrightarrow> i < k + 4 \<Longrightarrow> rng i = rng' i"
  shows "pointStep h rng ai cm a rg w m pidx (k, g, pos, col)
           = pointStep h rng' ai cm a rg w m pidx (k, g, pos, col)"
proof -
  have "rng k = rng' k" "rng (Suc k) = rng' (Suc k)" "rng (Suc (Suc k)) = rng' (Suc (Suc k))"
    "rng (k + 3) = rng' (k + 3)" using assms by simp_all
  then show ?thesis by (auto simp: pointStep_def Let_def split: prod.splits)
qed

lemma pointStep_counter:
  "\<exists>k' pos' col'. pointStep h rng ai cm a rg w m pidx (k, g, pos, col) = (k', g + 1, pos', col')
      \<and> k \<le> k' \<and> k' \<le> k + 4"
  by (auto simp: pointStep_def Let_def split: prod.splits)

lemma pointLoop_cong:
  "(\<And>i. k \<le> i \<Longrightarrow> i < k + 4 * n \<Longrightarrow> rng i = rng' i)
   \<Longrightarrow> pointLoop h rng ai cm a rg w m n pidx (k, g, pos, col)
       = pointLoop h rng' ai cm a rg w m n pidx (k, g, pos, col)"
proof (induction n arbitrary: pidx k g pos col)
  case 0
  then show ?case by simp
next
  case (Suc n)
  have s: "pointStep h rng ai cm a rg w m pidx (k, g, pos, col)
           = pointStep h rng' ai cm a rg w m pidx (k, g, pos, col)"
    using Suc.prems by (intro pointStep_cong) simp
  obtain k' pos' col' where st: "pointStep h rng' ai cm a rg w m pidx (k, g, pos, col) = (k', g + 1, pos', col')"
    and kk: "k \<le> k'" "k' \<le> k + 4"
    using pointStep_counter[of h rng' ai cm a rg w m pidx k g pos col] by blast
  have "pointLoop h rng ai cm a rg w m n (Suc pidx) (k', g + 1, pos', col')
        = pointLoop h rng' ai cm a rg w m n (Suc pidx) (k', g + 1, pos', col')"
  proof (rule Suc.IH)
    fix i assume "k' \<le> i" "i < k' + 4 * n"
    then have "k \<le> i" "i < k + 4 * Suc n" using kk by simp_all
    then show "rng i = rng' i" by (rule Suc.prems)
  qed
  then show ?case by (simp add: s st)
qed

lemma pointLoop_counter:
  "\<exists>k' pos' col'. pointLoop h rng ai cm a rg w m n pidx (k, g, pos, col) = (k', g + n, pos', col')
      \<and> k \<le> k' \<and> k' \<le> k + 4 * n"
proof (induction n arbitrary: pidx k g pos col)
  case 0
  then show ?case by simp
next
  case (Suc n)
  obtain k1 pos1 col1 where st: "pointStep h rng ai cm a rg w m pidx (k, g, pos, col) = (k1, g + 1, pos1, col1)"
    and kk: "k \<le> k1" "k1 \<le> k + 4"
    using pointStep_counter[of h rng ai cm a rg w m pidx k g pos col] by blast
  from Suc.IH[of "Suc pidx" k1 "g + 1" pos1 col1] obtain k' pos' col' where
    "pointLoop h rng ai cm a rg w m n (Suc pidx) (k1, g + 1, pos1, col1) = (k', g + 1 + n, pos', col')"
    and "k1 \<le> k'" "k' \<le> k1 + 4 * n" by blast
  then show ?case using st kk by simp
qed

lemma tensorLoop_cong:
  "(\<And>i. k \<le> i \<Longrightarrow> i < k + 4 * pointTotal (map (pointCount \<circ> fst) zs) \<Longrightarrow> rng i = rng' i)
   \<Longrightarrow> tensorLoop h rng ai cm lay zs ((k, g, pos, col), regs)
       = tensorLoop h rng' ai cm lay zs ((k, g, pos, col), regs)"
proof (induction zs arbitrary: k g pos col regs)
  case Nil
  then show ?case by simp
next
  case (Cons z zs)
  obtain a w where z: "z = (a, w)" by (cases z)
  show ?case
  proof (cases "loop_iterations (pointCount a)")
    case None
    then show ?thesis by (simp add: z)
  next
    case (Some n)
    let ?rg = "lay (category (cls a)) (layerIdx (cls a)) (expertIdx (cls a)) (tensor a)"
    let ?m = "case w of None \<Rightarrow> Fin 0 | Some ws \<Rightarrow> maxAbsOf ws"
    have pt: "pointTotal (map (pointCount \<circ> fst) (z # zs)) = n + pointTotal (map (pointCount \<circ> fst) zs)"
      by (simp add: pointTotal_def z Some)
    have "\<And>i. k \<le> i \<Longrightarrow> i < k + 4 * n \<Longrightarrow> rng i = rng' i"
    proof -
      fix i assume "k \<le> i" "i < k + 4 * n"
      then have "k \<le> i" "i < k + 4 * pointTotal (map (pointCount \<circ> fst) (z # zs))"
        unfolding pt by simp_all
      then show "rng i = rng' i" by (rule Cons.prems)
    qed
    from pointLoop_cong[OF this]
    have pl: "pointLoop h rng ai cm a ?rg w ?m n 0 (k, g, pos, col)
              = pointLoop h rng' ai cm a ?rg w ?m n 0 (k, g, pos, col)" .
    obtain k' pos' col' where r: "pointLoop h rng' ai cm a ?rg w ?m n 0 (k, g, pos, col) = (k', g + n, pos', col')"
      and kk: "k \<le> k'" "k' \<le> k + 4 * n"
      using pointLoop_counter[of h rng' ai cm a ?rg w ?m n 0 k g pos col] by blast
    have "\<And>regs'. tensorLoop h rng ai cm lay zs ((k', g + n, pos', col'), regs')
              = tensorLoop h rng' ai cm lay zs ((k', g + n, pos', col'), regs')"
    proof (rule Cons.IH)
      fix i assume "k' \<le> i" "i < k' + 4 * pointTotal (map (pointCount \<circ> fst) zs)"
      then have "k \<le> i" "i < k + 4 * pointTotal (map (pointCount \<circ> fst) (z # zs))"
        using kk unfolding pt by simp_all
      then show "rng i = rng' i" by (rule Cons.prems)
    qed
    then show ?thesis
      using pl r by (simp add: z Some Let_def)
  qed
qed

lemma generatePointCloud_cong:
  assumes "\<forall>i < 4 * pointTotal (pointCounts ts target). rng i = rng' i"
  shows "generatePointCloud h rng sm cl lay ai ts target cm
           = generatePointCloud h rng' sm cl lay ai ts target cm"
proof -
  define allocs where "allocs = map (\<lambda>(t, c). \<lparr>tensor = t, cls = cl (name t), pointCount = c\<rparr>)
                           (zip ts (pointCounts ts target))"
  have len: "length (pointCounts ts target) = length ts"
    by (simp add: pointCounts_def rescale_def rawCounts_def Let_def)
  have pcs: "map pointCount allocs = pointCounts ts target"
    unfolding allocs_def using len
    by (auto simp: list_eq_iff_nth_eq)
  have "map (pointCount \<circ> fst) (zip allocs (sampleAll sm cm allocs)) = map pointCount allocs"
    by (auto simp: list_eq_iff_nth_eq sampleAll_def)
  then have "\<And>len i. 0 \<le> i \<Longrightarrow> i < 0 + 4 * pointTotal (map (pointCount \<circ> fst) (zip allocs (sampleAll sm cm allocs)))
        \<Longrightarrow> rng i = rng' i"
    using assms by (simp add: pcs)
  from tensorLoop_cong[OF this]
  show ?thesis
    by (simp add: generatePointCloud_def allocs_def[symmetric] Let_def split: sum.splits)
qed

lemma sampleLines_two:
  "sampleLines rng (reg 0 100) (reg 0 100) pos (Fin (1 / 8)) df st
     = Some (lineLoop rng (reg 0 100) (reg 0 100) pos df 2 st)"
proof -
  have sc: "js_sub (num 100) (num 0) = num 100" using js_sub_nat[of 0 100] by simp
  have a: "fl 10 = 10" using fl_exact[of 10 10 0] by simp
  have b: "fl (5 / 4) = 5 / 4" using fl_exact[of "5 / 4" 5 "- 2"] by (simp add: power_int_minus)
  have lc: "lineCount (num 100) (num 100) (Fin (1 / 8)) = Fin 2"
    using lineCount_closed(1)[of 100 100 "1 / 8"] by (simp add: sqrt_100 a b)
  have it: "loop_iterations (Fin 2) = Some 2" by (simp add: loop_iterations_def)
  have nz: "\<not> js_eq (num 100) (Fin 0)" by (simp add: js_eq_def js_lt_def val_def)
  show ?thesis using nz sc lc it by (simp add: sampleLines_def reg_def)
qed

lemma ramp_get: "n < 300 \<Longrightarrow> ta_get ramp (num n) = Some (num n)"
  by (simp add: ta_get_def ramp_def)

lemma vertex_ramp: "n < 100 \<Longrightarrow> vertex ramp (num n) = [Some (num (3 * n)), Some (num (3 * n + 1)), Some (num (3 * n + 2))]"
proof -
  assume n: "n < 100"
  have m: "js_mul (num n) (num 3) = num (3 * n)"
  proof (cases "n = 0")
    case True
    then show ?thesis by (simp add: js_mul_def is_inf_def is_zero_def is_neg_def val_def dbl_zero)
  next
    case False
    then have "js_mul (num n) (num 3) = dbl False (real n * 3)" by (simp add: js_mul_pos)
    also have "\<dots> = dbl False (real (3 * n))" by (simp add: mult.commute)
    also have "\<dots> = num (3 * n)" using n by (intro dbl_nat) simp
    finally show ?thesis .
  qed
  have a1: "js_add (num (3 * n)) (num 1) = num (3 * n + 1)" using n by (intro js_add_nat) simp
  have a2: "js_add (num (3 * n)) (num 2) = num (3 * n + 2)" using n by (intro js_add_nat) simp
  have g: "ta_get ramp (num (3 * n)) = Some (num (3 * n))"
    "ta_get ramp (num (3 * n + 1)) = Some (num (3 * n + 1))"
    "ta_get ramp (num (3 * n + 2)) = Some (num (3 * n + 2))"
    using n by (simp_all only: ramp_get)
  show ?thesis unfolding vertex_def m a1 a2 g ..
qed

text \<open>
  C3 as stated fails: there is no seed and no injectable source, and the same regions,
  position buffer and density give different line buffers when \<open>Math.random\<close> returns
  0 throughout and when it returns 0.5 throughout.
\<close>

theorem line_buffers_differ_counterexample:
  "map_option (fst \<circ> snd)
     (sampleLines rng0 (reg 0 100) (reg 0 100) ramp (Fin (1 / 8)) (Fin (1 / 2)) (0, [], []))
     = Some (map (Some \<circ> num) [0, 1, 2, 0, 1, 2, 0, 1, 2, 0, 1, 2])
   \<and> map_option (fst \<circ> snd)
     (sampleLines rng_half (reg 0 100) (reg 0 100) ramp (Fin (1 / 8)) (Fin (1 / 2)) (0, [], []))
     = Some (map (Some \<circ> num) [150, 151, 152, 150, 151, 152, 150, 151, 152, 150, 151, 152])
   \<and> sampleLines rng0 (reg 0 100) (reg 0 100) ramp (Fin (1 / 8)) (Fin (1 / 2)) (0, [], [])
     \<noteq> sampleLines rng_half (reg 0 100) (reg 0 100) ramp (Fin (1 / 8)) (Fin (1 / 2)) (0, [], [])"
proof -
  have sc: "js_sub (num 100) (num 0) = num 100" using js_sub_nat[of 0 100] by simp
  have m0: "js_mul (Fin 0) (num 100) = Fin 0"
    by (simp add: js_mul_def is_inf_def is_zero_def is_neg_def val_def dbl_zero)
  have mh: "js_mul (Fin (1 / 2)) (num 100) = Fin 50" by (simp add: js_mul_pos dbl_numeral)
  have f0: "js_floor (Fin 0) = Fin 0" "js_floor (Fin 50) = Fin 50" by (simp_all add: js_floor_Fin)
  have a0: "js_add (num 0) (Fin 0) = num 0" using js_add_nat[of 0 0] by simp
  have ah: "js_add (num 0) (Fin 50) = num 50" using js_add_nat[of 0 50] by simp
  have v0: "vertex ramp (num 0) = [Some (num 0), Some (num 1), Some (num 2)]"
    using vertex_ramp[of 0] by simp
  have vh: "vertex ramp (num 50) = [Some (num 150), Some (num 151), Some (num 152)]"
    using vertex_ramp[of 50] by simp
  have e: "startIdx (reg 0 100) = 0" "endIdx (reg 0 100) = 100" by (simp_all add: reg_def)
  have l0: "fst (snd (lineLoop rng0 (reg 0 100) (reg 0 100) ramp (Fin (1 / 2)) 2 (0, [], [])))
      = map (Some \<circ> num) [0, 1, 2, 0, 1, 2, 0, 1, 2, 0, 1, 2]"
    unfolding numeral_2_eq_2 lineLoop.simps Let_def e rng0_def sc m0 f0 a0 v0 by simp
  have lh: "fst (snd (lineLoop rng_half (reg 0 100) (reg 0 100) ramp (Fin (1 / 2)) 2 (0, [], [])))
      = map (Some \<circ> num) [150, 151, 152, 150, 151, 152, 150, 151, 152, 150, 151, 152]"
    unfolding numeral_2_eq_2 lineLoop.simps Let_def e rng_half_def sc mh f0 ah vh by simp
  have "lineLoop rng0 (reg 0 100) (reg 0 100) ramp (Fin (1 / 2)) 2 (0, [], [])
      \<noteq> lineLoop rng_half (reg 0 100) (reg 0 100) ramp (Fin (1 / 2)) 2 (0, [], [])"
    using l0 lh by auto
  then show ?thesis by (simp add: sampleLines_two l0 lh)
qed

lemma counts_100: "pointCounts [tensor_of 100] (num 100) = [num 400]"
proof -
  have b: "js_add (Fin 0) (num 100) = num 100" using js_add_nat[of 0 100] by simp
  have c: "js_div (num 100) (num 100) = Fin 1" by (simp add: js_div_pos dbl_one)
  have d: "js_div (num 100) (Fin 1) = Fin 100" by (simp add: js_div_pos dbl_numeral)
  have e: "js_max (num 400) (js_floor (Fin 100)) = num 400" by (simp add: js_floor_Fin js_max_Fin)
  have raw: "rawCounts [tensor_of 100] (num 100) = [num 400]"
    using b c d e by (simp add: rawCounts_def totalParams_def tensor_of_def Let_def MIN_POINTS_PER_TENSOR_def)
  have at: "allocTotal [num 400] = num 400" using allocTotal_nat[of "[400]"] by simp
  have gt: "js_gt (num 400) (Fin 0)" by (simp add: js_gt_def js_lt_def val_def)
  have sc: "js_div (num 100) (num 400) = Fin (1 / 4)" by (simp add: js_div_pos dbl_quarter)
  have m: "js_mul (Fin 400) (Fin (1 / 4)) = Fin 100" by (simp add: js_mul_pos dbl_numeral)
  have r: "js_max (num 400) (rescaled (Fin (1 / 4)) (num 400)) = num 400"
    by (simp add: rescaled_def m js_round_pos js_max_Fin)
  show ?thesis
    unfolding pointCounts_def rescale_def raw at sc Let_def MIN_POINTS_PER_TENSOR_def
    using gt r by simp
qed

lemma lineCount_100:
  "lineCount (js_sub (num (endIdx (reg 0 100))) (num (startIdx (reg 0 100))))
     (js_sub (num (endIdx (reg 0 100))) (num (startIdx (reg 0 100)))) (Fin (1 / 8)) = Fin 2"
proof -
  have sc: "js_sub (num 100) (num 0) = num 100" using js_sub_nat[of 0 100] by simp
  have a: "fl 10 = 10" using fl_exact[of 10 10 0] by simp
  have b: "fl (5 / 4) = 5 / 4" using fl_exact[of "5 / 4" 5 "- 2"] by (simp add: power_int_minus)
  have lc: "lineCount (num 100) (num 100) (Fin (1 / 8)) = Fin 2"
    using lineCount_closed(1)[of 100 100 "1 / 8"] by (simp add: sqrt_100 a b)
  show ?thesis using sc lc by (simp add: reg_def)
qed

text \<open>
  C3, as amended. \<open>generatePointCloud\<close> and \<open>_sampleLines\<close> take no seed and no random
  source: jitter, brightness variation and edge sampling call the global \<open>Math.random\<close>.
  Their results are a function of their inputs and of the values \<open>Math.random\<close> returns
  during the run: two runs over the same inputs give the same position, colour and
  line buffers whenever \<open>Math.random\<close> returns the same values in both, at most four
  values a point and two a line segment.
\<close>

theorem buffers_determined_by_draws:
  "((\<forall>i < 4 * pointTotal (pointCounts ts targetPointCount). rng i = rng' i)
      \<longrightarrow> generatePointCloud h rng sampleTensorWeights classifyTensor computeLayout archInfo ts
            targetPointCount colorMode
          = generatePointCloud h rng' sampleTensorWeights classifyTensor computeLayout archInfo ts
            targetPointCount colorMode)
   \<and> ((\<forall>n. loop_iterations (lineCount (js_sub (num (endIdx src)) (num (startIdx src)))
                   (js_sub (num (endIdx tgt)) (num (startIdx tgt))) density) = Some n
              \<longrightarrow> (\<forall>i. k \<le> i \<and> i < k + 2 * n \<longrightarrow> rng i = rng' i))
      \<longrightarrow> sampleLines rng src tgt pos density dimFactor (k, outPos, outCol)
          = sampleLines rng' src tgt pos density dimFactor (k, outPos, outCol))"
proof (intro conjI impI)
  assume "\<forall>i < 4 * pointTotal (pointCounts ts targetPointCount). rng i = rng' i"
  then show "generatePointCloud h rng sampleTensorWeights classifyTensor computeLayout archInfo ts
            targetPointCount colorMode
          = generatePointCloud h rng' sampleTensorWeights classifyTensor computeLayout archInfo ts
            targetPointCount colorMode"
    by (rule generatePointCloud_cong)
next
  assume "\<forall>n. loop_iterations (lineCount (js_sub (num (endIdx src)) (num (startIdx src)))
                   (js_sub (num (endIdx tgt)) (num (startIdx tgt))) density) = Some n
              \<longrightarrow> (\<forall>i. k \<le> i \<and> i < k + 2 * n \<longrightarrow> rng i = rng' i)"
  then show "sampleLines rng src tgt pos density dimFactor (k, outPos, outCol)
          = sampleLines rng' src tgt pos density dimFactor (k, outPos, outCol)"
    by (rule sampleLines_cong)
qed

theorem buffers_determined_by_draws_witness:
  "generatePointCloud host0 rng0 sampler_fail classify0 layout0 (extractArchInfo host0 md_heads)
       [tensor_of 100] (num 100) ''tensor''
     = generatePointCloud host0 rng_tail sampler_fail classify0 layout0 (extractArchInfo host0 md_heads)
       [tensor_of 100] (num 100) ''tensor''
   \<and> sampleLines rng0 (reg 0 100) (reg 0 100) ramp (Fin (1 / 8)) (Fin (1 / 2)) (0, [], [])
     = sampleLines rng_tail (reg 0 100) (reg 0 100) ramp (Fin (1 / 8)) (Fin (1 / 2)) (0, [], [])"
proof -
  have pt: "pointTotal (pointCounts [tensor_of 100] (num 100)) = 400"
    unfolding counts_100 by (simp add: pointTotal_def loop_iterations_def)
  have 1: "\<forall>i < 4 * pointTotal (pointCounts [tensor_of 100] (num 100)). rng0 i = rng_tail i"
    unfolding pt by (simp add: rng0_def rng_tail_def)
  have 2: "\<forall>n. loop_iterations (lineCount (js_sub (num (endIdx (reg 0 100))) (num (startIdx (reg 0 100))))
                   (js_sub (num (endIdx (reg 0 100))) (num (startIdx (reg 0 100)))) (Fin (1 / 8))) = Some n
              \<longrightarrow> (\<forall>i. 0 \<le> i \<and> i < 0 + 2 * n \<longrightarrow> rng0 i = rng_tail i)"
    unfolding lineCount_100 by (auto simp: loop_iterations_def rng0_def rng_tail_def)
  from buffers_determined_by_draws[where ts="[tensor_of 100]" and targetPointCount="num 100"
      and rng=rng0 and rng'=rng_tail and src="reg 0 100" and tgt="reg 0 100"
      and density="Fin (1 / 8)" and k=0] 1 2
  show ?thesis by blast
qed

subsection \<open>The point loops and sampling failures\<close>





























end
